theory Spec2Isabelle
  imports Complex_Main "HOL-Library.Sublist"
begin

section \<open>Characters and strings\<close>

text \<open>
  Pane text is a Python \<^verbatim>\<open>str\<close>.  It is modelled as a list of 8-bit characters,
  each read as the Unicode code point of the same number (U+0000 to U+00FF).  On
  these code points the classes below are the ones Python uses for
  \<^verbatim>\<open>str.isspace\<close>, \<^verbatim>\<open>str.splitlines\<close>, \<^verbatim>\<open>str.lower\<close> and for \<^verbatim>\<open>\s\<close>, \<^verbatim>\<open>\d\<close>,
  \<^verbatim>\<open>\w\<close> in a \<^verbatim>\<open>str\<close> pattern.
\<close>

definition code :: "char \<Rightarrow> nat" where
  "code c = of_char c"

definition LF :: char where
  "LF = CHR 0x0A"

definition CR :: char where
  "CR = CHR 0x0D"

definition is_space :: "char \<Rightarrow> bool" where
  "is_space c \<longleftrightarrow> code c \<in> {9, 10, 11, 12, 13, 28, 29, 30, 31, 32, 133, 160}"

definition is_linebreak :: "char \<Rightarrow> bool" where
  "is_linebreak c \<longleftrightarrow> code c \<in> {10, 11, 12, 13, 28, 29, 30, 133}"

definition is_digit :: "char \<Rightarrow> bool" where
  "is_digit c \<longleftrightarrow> 48 \<le> code c \<and> code c \<le> 57"

definition is_word :: "char \<Rightarrow> bool" where
  "is_word c \<longleftrightarrow>
     (48 \<le> code c \<and> code c \<le> 57) \<or> (65 \<le> code c \<and> code c \<le> 90) \<or> code c = 95 \<or>
     (97 \<le> code c \<and> code c \<le> 122) \<or>
     code c \<in> {170, 178, 179, 181, 185, 186, 188, 189, 190} \<or>
     (192 \<le> code c \<and> code c \<le> 214) \<or> (216 \<le> code c \<and> code c \<le> 246) \<or>
     248 \<le> code c"

definition py_lower :: "char \<Rightarrow> char" where
  "py_lower c =
     (if (65 \<le> code c \<and> code c \<le> 90) \<or> (192 \<le> code c \<and> code c \<le> 222 \<and> code c \<noteq> 215)
      then char_of (code c + 32) else c)"

text \<open>\<^verbatim>\<open>s.strip()\<close>: whitespace removed at both ends.\<close>

definition strip :: "string \<Rightarrow> string" where
  "strip s = rev (dropWhile is_space (rev (dropWhile is_space s)))"

text \<open>
  \<^verbatim>\<open>s.splitlines()\<close>: the text up to the next line boundary is a line, the boundary
  is dropped (a carriage return directly followed by a line feed is one boundary),
  and nothing follows the last boundary when the text ends there.
\<close>

fun skip_break :: "string \<Rightarrow> string" where
  "skip_break [] = []"
| "skip_break [c] = []"
| "skip_break (c # d # cs) = (if c = CR \<and> d = LF then cs else d # cs)"

function splitlines :: "string \<Rightarrow> string list" where
  "splitlines s =
     (if s = [] then []
      else takeWhile (\<lambda>c. \<not> is_linebreak c) s
           # splitlines (skip_break (dropWhile (\<lambda>c. \<not> is_linebreak c) s)))"
  by pat_completeness auto
termination
proof (relation "measure length")
  show "wf (measure length)" by simp
next
  fix s :: string
  assume "s \<noteq> []"
  have "length (skip_break xs) \<le> length xs - 1" for xs
    by (cases xs rule: skip_break.cases) auto
  moreover have "length (dropWhile (\<lambda>c. \<not> is_linebreak c) s) \<le> length s"
    by (rule length_dropWhile_le)
  ultimately have "length (skip_break (dropWhile (\<lambda>c. \<not> is_linebreak c) s)) \<le> length s - 1"
    by (meson diff_le_mono order_trans)
  with \<open>s \<noteq> []\<close> show "(skip_break (dropWhile (\<lambda>c. \<not> is_linebreak c) s), s) \<in> measure length"
    by (cases s) auto
qed

declare splitlines.simps [simp del]

text \<open>\<^verbatim>\<open>sep.join(xs)\<close>\<close>

fun join :: "string \<Rightarrow> string list \<Rightarrow> string" where
  "join sep [] = []"
| "join sep [x] = x"
| "join sep (x # y # ys) = x @ sep @ join sep (y # ys)"

text \<open>\<^verbatim>\<open>xs[-n:]\<close> for positive \<open>n\<close>: the last \<open>n\<close> elements, all of them when there are fewer.\<close>

definition last_n :: "nat \<Rightarrow> 'a list \<Rightarrow> 'a list" where
  "last_n n xs = drop (length xs - n) xs"

section \<open>Regular expressions\<close>

text \<open>
  The patterns of the program use literals, \<^verbatim>\<open>\d\<close>, \<^verbatim>\<open>\s\<close>, character sets, \<^verbatim>\<open>+\<close> and
  \<^verbatim>\<open>?\<close> on single characters, \<^verbatim>\<open>\b\<close>, \<^verbatim>\<open>^\<close>, \<^verbatim>\<open>$\<close>, sequence and alternation.  A
  position in the subject is a cursor: the character before it (if any) and the text
  from it on.  \<open>re_match\<close> lists the cursors a pattern can end at, in the order in
  which a backtracking matcher tries them (first alternative first, longest
  repetition first); \<open>re_search_from\<close> tries the start positions from left to
  right and returns the span of the first match, as \<^verbatim>\<open>pattern.search\<close> does.
\<close>

datatype atom = Lit char | Digit | Space | OneOf string

datatype regex =
    Eps
  | Atom atom
  | Plus atom
  | Opt atom
  | WordB
  | Bos
  | Eos
  | Seq regex regex
  | Alt regex regex

record pattern =
  pat_regex :: regex
  pat_ignorecase :: bool

type_synonym cursor = "char option \<times> string"

fun atom_ok :: "bool \<Rightarrow> atom \<Rightarrow> char \<Rightarrow> bool" where
  "atom_ok ic (Lit c) x = (if ic then py_lower x = py_lower c else x = c)"
| "atom_ok ic Digit x = is_digit x"
| "atom_ok ic Space x = is_space x"
| "atom_ok ic (OneOf cs) x = (if ic then py_lower x \<in> set (map py_lower cs) else x \<in> set cs)"

fun word_before :: "cursor \<Rightarrow> bool" where
  "word_before (None, s) = False"
| "word_before (Some c, s) = is_word c"

fun word_after :: "cursor \<Rightarrow> bool" where
  "word_after (p, []) = False"
| "word_after (p, c # cs) = is_word c"

fun plus_ends :: "(char \<Rightarrow> bool) \<Rightarrow> cursor \<Rightarrow> cursor list" where
  "plus_ends P (p, []) = []"
| "plus_ends P (p, c # cs) = (if P c then plus_ends P (Some c, cs) @ [(Some c, cs)] else [])"

fun re_match :: "bool \<Rightarrow> regex \<Rightarrow> cursor \<Rightarrow> cursor list" where
  "re_match ic Eps cur = [cur]"
| "re_match ic (Atom a) (p, []) = []"
| "re_match ic (Atom a) (p, c # cs) = (if atom_ok ic a c then [(Some c, cs)] else [])"
| "re_match ic (Plus a) cur = plus_ends (atom_ok ic a) cur"
| "re_match ic (Opt a) (p, []) = [(p, [])]"
| "re_match ic (Opt a) (p, c # cs) =
     (if atom_ok ic a c then [(Some c, cs), (p, c # cs)] else [(p, c # cs)])"
| "re_match ic WordB cur = (if word_before cur \<noteq> word_after cur then [cur] else [])"
| "re_match ic Bos (p, s) = (if p = None then [(p, s)] else [])"
| "re_match ic Eos (p, s) = (if s = [] \<or> s = [LF] then [(p, s)] else [])"
| "re_match ic (Seq r1 r2) cur = concat (map (re_match ic r2) (re_match ic r1 cur))"
| "re_match ic (Alt r1 r2) cur = re_match ic r1 cur @ re_match ic r2 cur"

fun re_search_from :: "bool \<Rightarrow> regex \<Rightarrow> nat \<Rightarrow> cursor \<Rightarrow> (nat \<times> nat) option" where
  "re_search_from ic r i (p, []) =
     (case re_match ic r (p, []) of [] \<Rightarrow> None | e # _ \<Rightarrow> Some (i, i))"
| "re_search_from ic r i (p, c # cs) =
     (case re_match ic r (p, c # cs) of
        [] \<Rightarrow> re_search_from ic r (Suc i) (Some c, cs)
      | e # _ \<Rightarrow> Some (i, i + (length (c # cs) - length (snd e))))"

definition search :: "pattern \<Rightarrow> string \<Rightarrow> (nat \<times> nat) option" where
  "search pat s = re_search_from (pat_ignorecase pat) (pat_regex pat) 0 (None, s)"

fun lits :: "string \<Rightarrow> regex" where
  "lits [] = Eps"
| "lits (c # cs) = Seq (Atom (Lit c)) (lits cs)"

text \<open>\<^verbatim>\<open>TOKEN_REGEX = re.compile(r"\b(\d+\s+tokens|tokens)\b", re.IGNORECASE)\<close>\<close>

definition TOKEN_REGEX :: pattern where
  "TOKEN_REGEX =
     \<lparr>pat_regex =
        Seq WordB
          (Seq (Alt (Seq (Plus Digit) (Seq (Plus Space) (lits ''tokens''))) (lits ''tokens''))
             WordB),
      pat_ignorecase = True\<rparr>"

section \<open>Activity classifier\<close>

definition nonempty_lines :: "string \<Rightarrow> string list" where
  "nonempty_lines text = map strip (filter (\<lambda>ln. strip ln \<noteq> []) (splitlines text))"

definition tail_lines :: "string \<Rightarrow> string list" where
  "tail_lines text = last_n 20 (nonempty_lines text)"

definition detect_active :: "string \<Rightarrow> bool" where
  "detect_active text = (search TOKEN_REGEX (join [LF] (tail_lines text)) \<noteq> None)"

text \<open>
  The default monitoring patterns:
  \<^verbatim>\<open>^(cursor|cursor-agent)$\<close>, compiled without flags, and
  \<^verbatim>\<open>cursor[-_ ]?agent|Cursor Agent|Cursor-?Agent\<close>, compiled with \<^verbatim>\<open>re.IGNORECASE\<close>.
\<close>

definition DEFAULT_MATCH_COMMAND :: pattern where
  "DEFAULT_MATCH_COMMAND =
     \<lparr>pat_regex = Seq Bos (Seq (Alt (lits ''cursor'') (lits ''cursor-agent'')) Eos),
      pat_ignorecase = False\<rparr>"

definition DEFAULT_MATCH_TEXT :: pattern where
  "DEFAULT_MATCH_TEXT =
     \<lparr>pat_regex =
        Alt (Seq (lits ''cursor'') (Seq (Opt (OneOf ''-_ '')) (lits ''agent'')))
          (Alt (lits ''Cursor Agent'')
             (Seq (lits ''Cursor'') (Seq (Opt (Lit CHR ''-'')) (lits ''Agent'')))),
      pat_ignorecase = True\<rparr>"

definition found :: "pattern \<Rightarrow> string \<Rightarrow> bool" where
  "found pat s = (search pat s \<noteq> None)"

subsection \<open>Occurrences of the word\<close>

text \<open>
  The specification speaks of a case-insensitive whole-word occurrence of ``tokens'',
  alone or preceded by digits and whitespace.  These definitions follow its words;
  they do not use the matcher.  \<open>ci_starts w s\<close>: \<open>s\<close> begins with \<open>w\<close> up to case.
  \<open>tokens_here p s\<close>: at a position whose preceding character is \<open>p\<close> and whose text
  is \<open>s\<close>, the six letters stand as a whole word.  \<open>digits_tokens_here p s\<close>: there a run
  of digits begins at a word boundary, followed by whitespace and then the six letters
  up to a word boundary.  \<open>occurs P p s\<close>: \<open>P\<close> holds at some position of \<open>s\<close>.
\<close>

definition ci_starts :: "string \<Rightarrow> string \<Rightarrow> bool" where
  "ci_starts w s \<longleftrightarrow> length w \<le> length s \<and> map py_lower (take (length w) s) = map py_lower w"

fun word_start :: "char option \<Rightarrow> bool" where
  "word_start None = True"
| "word_start (Some c) = (\<not> is_word c)"

fun word_end :: "string \<Rightarrow> bool" where
  "word_end [] = True"
| "word_end (c # cs) = (\<not> is_word c)"

definition tokens_here :: "char option \<Rightarrow> string \<Rightarrow> bool" where
  "tokens_here p s \<longleftrightarrow> word_start p \<and> ci_starts ''tokens'' s \<and> word_end (drop 6 s)"

definition digits_tokens_here :: "char option \<Rightarrow> string \<Rightarrow> bool" where
  "digits_tokens_here p s \<longleftrightarrow>
     word_start p \<and> takeWhile is_digit s \<noteq> [] \<and>
     takeWhile is_space (dropWhile is_digit s) \<noteq> [] \<and>
     ci_starts ''tokens'' (dropWhile is_space (dropWhile is_digit s)) \<and>
     word_end (drop 6 (dropWhile is_space (dropWhile is_digit s)))"

fun occurs :: "(char option \<Rightarrow> string \<Rightarrow> bool) \<Rightarrow> char option \<Rightarrow> string \<Rightarrow> bool" where
  "occurs P p [] = P p []"
| "occurs P p (c # cs) = (P p (c # cs) \<or> occurs P (Some c) cs)"

definition standalone_tokens :: "string \<Rightarrow> bool" where
  "standalone_tokens line = occurs tokens_here None line"

definition digits_tokens :: "string \<Rightarrow> bool" where
  "digits_tokens line = occurs digits_tokens_here None line"

fun prev_char :: "char option \<Rightarrow> string \<Rightarrow> char option" where
  "prev_char p [] = p"
| "prev_char p (c # cs) = prev_char (Some c) cs"

section \<open>Data model\<close>

record Pane =
  session_name :: string
  window_index :: string
  pane_index :: string
  pane_id :: string
  is_active_flag :: bool
  current_path :: string
  pane_pid :: string
  current_command :: string

definition human_ref :: "Pane \<Rightarrow> string" where
  "human_ref pane = session_name pane @ '':'' @ window_index pane @ ''.'' @ pane_index pane"

record PaneState =
  last_seen_active :: "bool option"
  last_transition_ts :: real

definition new_PaneState :: PaneState where
  "new_PaneState = \<lparr>last_seen_active = None, last_transition_ts = 0\<rparr>"

text \<open>\<^verbatim>\<open>pane_id_to_state\<close>: the tracker's dictionary from pane identity to state.\<close>

type_synonym tracker = "string \<rightharpoonup> PaneState"

text \<open>
  The settings held by a \<^verbatim>\<open>Notifier\<close>.  A compiled pattern is held as the predicate
  ``\<^verbatim>\<open>pattern.search(s)\<close> finds a match'', so that any configured expression is
  covered; \<open>None\<close> stands for an empty pattern string, which is not compiled.
\<close>

record config =
  webhook_url :: "string option"
  interval_seconds :: int
  scan_lines :: int
  match_command :: "(string \<Rightarrow> bool) option"
  match_text :: "(string \<Rightarrow> bool) option"
  verbose :: bool
  dry_run :: bool

definition Notifier ::
  "string option \<Rightarrow> int \<Rightarrow> int \<Rightarrow> (string \<Rightarrow> bool) option \<Rightarrow> (string \<Rightarrow> bool) option \<Rightarrow>
   bool \<Rightarrow> bool \<Rightarrow> config" where
  "Notifier url interval lines by_command by_text v d =
     \<lparr>webhook_url = url, interval_seconds = max 2 interval, scan_lines = max 20 lines,
      match_command = by_command, match_text = by_text, verbose = v, dry_run = d\<rparr>"

section \<open>The world outside\<close>

text \<open>
  Exceptions are values.  \<open>RuntimeError\<close> is raised by the program itself; \<open>OtherError\<close>
  stands for any exception raised inside a library call (a subprocess that cannot be
  started or times out, a failed or timed-out HTTP request).  Both carry the text that
  \<^verbatim>\<open>str(exc)\<close> gives.
\<close>

datatype exn = RuntimeError string | OtherError string

fun exn_text :: "exn \<Rightarrow> string" where
  "exn_text (RuntimeError m) = m"
| "exn_text (OtherError m) = m"

record completed_process =
  returncode :: int
  stdout :: string
  stderr :: string

text \<open>
  What the program meets during one call: the outcome of \<^verbatim>\<open>tmux capture-pane\<close> for a
  pane identity and a line count, the outcome of \<^verbatim>\<open>git rev-parse --abbrev-ref HEAD\<close> in
  a directory, the outcome of opening the POST request for a URL and a message (an
  exception, or the status of the response), and the reading of \<^verbatim>\<open>time.time()\<close>.
\<close>

record world =
  tmux_capture :: "string \<Rightarrow> int \<Rightarrow> exn + completed_process"
  git_rev_parse :: "string \<Rightarrow> exn + completed_process"
  urlopen :: "string \<Rightarrow> string \<Rightarrow> exn + nat"
  time_now :: real

text \<open>
  What the program does to the outside, in order: \<open>Dispatch\<close> marks the entry of
  \<^verbatim>\<open>_send_idle_notification\<close> for a pane, \<open>Print\<close> is a line written by \<^verbatim>\<open>log\<close> (without
  its clock prefix), \<open>HttpPost url content\<close> is the POST of the JSON object with the
  single key \<^verbatim>\<open>content\<close> handed to \<^verbatim>\<open>urlopen\<close>, \<open>Sleep\<close> is \<^verbatim>\<open>time.sleep\<close>.
\<close>

datatype action = Dispatch Pane | Print string | HttpPost string string | Sleep int

definition log :: "config \<Rightarrow> string \<Rightarrow> action list" where
  "log cfg message = (if verbose cfg then [Print message] else [])"

fun dispatches :: "action list \<Rightarrow> nat" where
  "dispatches [] = 0"
| "dispatches (Dispatch pane # as) = Suc (dispatches as)"
| "dispatches (a # as) = dispatches as"

fun posts :: "action list \<Rightarrow> nat" where
  "posts [] = 0"
| "posts (HttpPost url content # as) = Suc (posts as)"
| "posts (a # as) = posts as"

subsection \<open>Formatting\<close>

function show_nat :: "nat \<Rightarrow> string" where
  "show_nat n =
     (if n < 10 then [char_of (48 + n)] else show_nat (n div 10) @ [char_of (48 + n mod 10)])"
  by pat_completeness auto
termination
  by (relation "measure id") auto

definition show_bool :: "bool \<Rightarrow> string" where
  "show_bool b = (if b then ''True'' else ''False'')"

section \<open>Pane capture and monitoring filter\<close>

definition capture_pane_text :: "world \<Rightarrow> string \<Rightarrow> int \<Rightarrow> exn + string" where
  "capture_pane_text w pid lines =
     (case tmux_capture w pid lines of
        Inl exc \<Rightarrow> Inl exc
      | Inr cp \<Rightarrow>
          if returncode cp \<noteq> 0
          then Inl (RuntimeError
                 (if strip (stderr cp) \<noteq> [] then strip (stderr cp)
                  else ''tmux capture-pane failed for '' @ pid))
          else Inr (stdout cp))"

definition should_monitor_pane :: "config \<Rightarrow> world \<Rightarrow> Pane \<Rightarrow> bool" where
  "should_monitor_pane cfg w pane =
     (let match_by_cmd =
            (case match_command cfg of None \<Rightarrow> False | Some m \<Rightarrow> m (current_command pane))
      in if match_by_cmd then True
         else (case match_text cfg of
                 None \<Rightarrow> False
               | Some m \<Rightarrow>
                   (case capture_pane_text w (pane_id pane) 40 of
                      Inl exc \<Rightarrow> False
                    | Inr tail_text \<Rightarrow> if m tail_text then True else False)))"

section \<open>Notification dispatcher\<close>

definition get_git_branch :: "world \<Rightarrow> string \<Rightarrow> string option" where
  "get_git_branch w path =
     (case git_rev_parse w path of
        Inl exc \<Rightarrow> None
      | Inr cp \<Rightarrow>
          (let out = strip (stdout cp)
           in if returncode cp = 0 \<and> out \<noteq> [] \<and> out \<noteq> ''HEAD'' then Some out else None))"

text \<open>
  The separator of the message is the three characters U+00E2, U+20AC, U+201D of the
  source literal; the two beyond U+00FF are written as their UTF-8 bytes.
\<close>

definition dash :: string where
  "dash = [CHR 0xE2, CHR 0xE2, CHR 0x82, CHR 0xAC, CHR 0xE2, CHR 0x80, CHR 0x9D]"

definition idle_message :: "Pane \<Rightarrow> string option \<Rightarrow> string" where
  "idle_message pane branch =
     (let path = current_path pane; ref = human_ref pane;
          message = ''Cursor-Agent idle in '' @ ref @ '' '' @ dash @ '' '' @ path
      in case branch of
           None \<Rightarrow> message
         | Some b \<Rightarrow> if b = [] then message else message @ '' (branch '' @ b @ '')'')"

definition post_discord_message :: "config \<Rightarrow> world \<Rightarrow> string \<Rightarrow> (exn + unit) \<times> action list" where
  "post_discord_message cfg w content =
     (case webhook_url cfg of
        None \<Rightarrow> (Inl (RuntimeError ''webhook_url missing''), [])
      | Some url \<Rightarrow>
          if url = [] then (Inl (RuntimeError ''webhook_url missing''), [])
          else (case urlopen w url content of
                  Inl exc \<Rightarrow> (Inl exc, [HttpPost url content])
                | Inr status \<Rightarrow>
                    if \<not> (200 \<le> status \<and> status < 300)
                    then (Inl (RuntimeError (''Discord webhook status '' @ show_nat status)),
                          [HttpPost url content])
                    else (Inr (), [HttpPost url content])))"

definition send_idle_notification :: "config \<Rightarrow> world \<Rightarrow> Pane \<Rightarrow> action list" where
  "send_idle_notification cfg w pane =
     (let message = idle_message pane (get_git_branch w (current_path pane))
      in Dispatch pane # log cfg (''NOTIFY: '' @ message) @
         (if dry_run cfg then []
          else (case post_discord_message cfg w message of
                  (Inr u, acts) \<Rightarrow> acts
                | (Inl exc, acts) \<Rightarrow> acts @ log cfg (''Failed to send webhook: '' @ exn_text exc))))"

section \<open>Transition tracker\<close>

text \<open>
  \<^verbatim>\<open>_maybe_notify_transition\<close> returns nothing; the model returns the tracker after the
  call, the name of the path taken through the function (first observation, active to
  idle, idle to active, or neither) and the actions performed.
\<close>

datatype transition_event = Initialized | BecameActive | BecameIdle | NoChange

definition maybe_notify_transition ::
  "config \<Rightarrow> world \<Rightarrow> tracker \<Rightarrow> Pane \<Rightarrow> bool \<Rightarrow> string \<Rightarrow>
   tracker \<times> transition_event \<times> action list" where
  "maybe_notify_transition cfg w tr pane looks_active buffer_text =
     (let state = (case tr (pane_id pane) of None \<Rightarrow> new_PaneState | Some st \<Rightarrow> st)
      in case last_seen_active state of
           None \<Rightarrow>
             (tr(pane_id pane \<mapsto>
                   state\<lparr>last_seen_active := Some looks_active, last_transition_ts := time_now w\<rparr>),
              Initialized,
              log cfg (''Initialized state for '' @ human_ref pane @ '': active=''
                       @ show_bool looks_active))
         | Some was_active \<Rightarrow>
             if was_active \<and> \<not> looks_active
             then (tr(pane_id pane \<mapsto>
                        state\<lparr>last_transition_ts := time_now w,
                              last_seen_active := Some looks_active\<rparr>),
                   BecameIdle,
                   send_idle_notification cfg w pane)
             else if \<not> was_active \<and> looks_active
             then (tr(pane_id pane \<mapsto>
                        state\<lparr>last_transition_ts := time_now w,
                              last_seen_active := Some looks_active\<rparr>),
                   BecameActive,
                   log cfg (human_ref pane @ '' became active again''))
             else (tr(pane_id pane \<mapsto> state\<lparr>last_seen_active := Some looks_active\<rparr>),
                   NoChange, []))"

text \<open>A sequence of observations of one pane, each with the world it is made in.\<close>

type_synonym observation = "world \<times> bool \<times> string"

fun observe_all ::
  "config \<Rightarrow> tracker \<Rightarrow> Pane \<Rightarrow> observation list \<Rightarrow>
   tracker \<times> transition_event list \<times> action list list" where
  "observe_all cfg tr pane [] = (tr, [], [])"
| "observe_all cfg tr pane ((w, looks_active, buffer_text) # rest) =
     (case maybe_notify_transition cfg w tr pane looks_active buffer_text of
        (tr1, ev, acts) \<Rightarrow>
          (case observe_all cfg tr1 pane rest of
             (tr2, evs, actss) \<Rightarrow> (tr2, ev # evs, acts # actss)))"

text \<open>
  The clock reading of the most recent observation whose event is not \<open>NoChange\<close>,
  starting from \<open>t\<close>; and the timestamp the tracker holds for a pane (0 when it has no
  entry, the default of \<^verbatim>\<open>PaneState\<close>).
\<close>

fun last_event_time :: "real \<Rightarrow> (observation \<times> transition_event) list \<Rightarrow> real" where
  "last_event_time t [] = t"
| "last_event_time t ((obs, ev) # rest) =
     last_event_time (if ev = NoChange then t else time_now (fst obs)) rest"

definition stored_ts :: "tracker \<Rightarrow> Pane \<Rightarrow> real" where
  "stored_ts tr pane = (case tr (pane_id pane) of None \<Rightarrow> 0 | Some st \<Rightarrow> last_transition_ts st)"

section \<open>Poll loop\<close>

text \<open>
  One pass of the \<^verbatim>\<open>for\<close> loop of \<^verbatim>\<open>run\<close> for one pane, which is given with the world
  met while it is handled.
\<close>

definition process_pane :: "config \<Rightarrow> tracker \<Rightarrow> Pane \<times> world \<Rightarrow> tracker \<times> action list" where
  "process_pane cfg tr pw =
     (case pw of (pane, w) \<Rightarrow>
        if \<not> should_monitor_pane cfg w pane then (tr, [])
        else (case capture_pane_text w (pane_id pane) (scan_lines cfg) of
                Inl exc \<Rightarrow>
                  (tr, log cfg (''Failed to capture '' @ human_ref pane @ '': '' @ exn_text exc))
              | Inr buffer_text \<Rightarrow>
                  (let looks_active = detect_active buffer_text
                   in case maybe_notify_transition cfg w tr pane looks_active buffer_text of
                        (tr1, ev, acts) \<Rightarrow> (tr1, acts))))"

fun poll_panes :: "config \<Rightarrow> tracker \<Rightarrow> (Pane \<times> world) list \<Rightarrow> tracker \<times> action list" where
  "poll_panes cfg tr [] = (tr, [])"
| "poll_panes cfg tr (pw # rest) =
     (case process_pane cfg tr pw of
        (tr1, acts1) \<Rightarrow>
          (case poll_panes cfg tr1 rest of (tr2, acts2) \<Rightarrow> (tr2, acts1 @ acts2)))"

text \<open>
  One pass of the \<^verbatim>\<open>while True\<close> loop: the pane listing either raises or gives the panes.
\<close>

type_synonym cycle = "exn + (Pane \<times> world) list"

definition poll_cycle :: "config \<Rightarrow> tracker \<Rightarrow> cycle \<Rightarrow> tracker \<times> action list" where
  "poll_cycle cfg tr cyc =
     (case cyc of
        Inl exc \<Rightarrow>
          (tr, log cfg (''Failed to list tmux panes: '' @ exn_text exc)
               @ [Sleep (interval_seconds cfg)])
      | Inr panes \<Rightarrow>
          (case poll_panes cfg tr panes of
             (tr1, acts) \<Rightarrow> (tr1, acts @ [Sleep (interval_seconds cfg)])))"

text \<open>
  The loop has no exit of its own; \<open>run_cycles\<close> gives the tracker and the actions
  after the passes listed.
\<close>

fun run_cycles :: "config \<Rightarrow> tracker \<Rightarrow> cycle list \<Rightarrow> tracker \<times> action list" where
  "run_cycles cfg tr [] = (tr, [])"
| "run_cycles cfg tr (cyc # rest) =
     (case poll_cycle cfg tr cyc of
        (tr1, acts1) \<Rightarrow>
          (case run_cycles cfg tr1 rest of (tr2, acts2) \<Rightarrow> (tr2, acts1 @ acts2)))"

section \<open>Example values\<close>

definition example_pane :: Pane where
  "example_pane =
     \<lparr>session_name = ''work'', window_index = ''0'', pane_index = ''1'', pane_id = ''%3'',
      is_active_flag = True, current_path = ''/home/u/proj'', pane_pid = ''4242'',
      current_command = ''cursor-agent''\<rparr>"

definition example_config :: config where
  "example_config =
     Notifier (Some ''https://discord.example/hook'') 7 120
       (Some (found DEFAULT_MATCH_COMMAND)) (Some (found DEFAULT_MATCH_TEXT)) True False"

text \<open>
  A world at clock reading \<open>t\<close> in which the pane shows \<open>text\<close>, the directory is on
  branch \<^verbatim>\<open>main\<close>, and the POST is answered as \<open>reply\<close> says.
\<close>

definition example_world :: "real \<Rightarrow> string \<Rightarrow> exn + nat \<Rightarrow> world" where
  "example_world t text reply =
     \<lparr>tmux_capture = (\<lambda>pid lines. Inr \<lparr>returncode = 0, stdout = text, stderr = []\<rparr>),
      git_rev_parse = (\<lambda>path. Inr \<lparr>returncode = 0, stdout = ''main'' @ [LF], stderr = []\<rparr>),
      urlopen = (\<lambda>url content. reply),
      time_now = t\<rparr>"

text \<open>Variants: a capture that exits with an error, a pane running a shell, a directory
  that is no repository.\<close>

definition failing_capture :: "world \<Rightarrow> world" where
  "failing_capture w =
     w\<lparr>tmux_capture := (\<lambda>pid lines. Inr \<lparr>returncode = 1, stdout = [], stderr = ''no such pane''\<rparr>)\<rparr>"

definition shell_pane :: Pane where
  "shell_pane = example_pane\<lparr>current_command := ''zsh''\<rparr>"

definition no_repository :: "world \<Rightarrow> world" where
  "no_repository w =
     w\<lparr>git_rev_parse := (\<lambda>path. Inr \<lparr>returncode = 128, stdout = [], stderr = []\<rparr>)\<rparr>"

text \<open>A POST that times out, and a tracker that last saw the example pane active.\<close>

definition timed_out :: "exn + nat" where
  "timed_out = Inl (OtherError ''timed out'')"

definition was_active :: tracker where
  "was_active = [''%3'' \<mapsto> \<lparr>last_seen_active = Some True, last_transition_ts = 10\<rparr>]"

text \<open>Texts for the classifier.\<close>

definition twenty_lines :: string where
  "twenty_lines = concat (replicate 20 (''ok'' @ [LF]))"

definition split_example :: string where
  "split_example = ''used 12'' @ [LF] @ ''tokens left''"

definition short_example :: string where
  "short_example = ''total 7'' @ [LF] @ ''Tokens''"

section \<open>Actions of the dispatcher\<close>

lemma dispatches_append: "dispatches (xs @ ys) = dispatches xs + dispatches ys"
  by (induction xs rule: dispatches.induct) auto

lemma posts_append: "posts (xs @ ys) = posts xs + posts ys"
  by (induction xs rule: posts.induct) auto

lemma dispatches_log: "dispatches (log cfg m) = 0"
  by (simp add: log_def)

lemma posts_log: "posts (log cfg m) = 0"
  by (simp add: log_def)

lemma post_discord_message_actions:
  "dispatches (snd (post_discord_message cfg w m)) = 0 \<and>
   posts (snd (post_discord_message cfg w m)) \<le> 1"
  by (simp add: post_discord_message_def split: option.splits sum.splits)

lemma dispatches_send: "dispatches (send_idle_notification cfg w pane) = 1"
  using post_discord_message_actions
          [of cfg w "idle_message pane (get_git_branch w (current_path pane))"]
  by (auto simp: send_idle_notification_def Let_def dispatches_append dispatches_log
      split: prod.splits sum.splits)

lemma posts_send: "posts (send_idle_notification cfg w pane) \<le> 1"
  using post_discord_message_actions
          [of cfg w "idle_message pane (get_git_branch w (current_path pane))"]
  by (auto simp: send_idle_notification_def Let_def posts_append posts_log
      split: prod.splits sum.splits)

section \<open>Transition tracker: the first observation\<close>

text \<open>
  Claim C3.  For every pane identity the tracker has no entry for, and for either
  observed value, \<^verbatim>\<open>_maybe_notify_transition\<close> takes the first-observation path: the event
  is \<open>Initialized\<close>, the observed value is stored, the dispatcher is not entered and
  nothing is posted.
\<close>

theorem first_observation_initializes:
  assumes "tr (pane_id pane) = None"
  shows "\<exists>tr' acts.
           maybe_notify_transition cfg w tr pane looks_active buffer_text
             = (tr', Initialized, acts)
           \<and> dispatches acts = 0 \<and> posts acts = 0
           \<and> (\<exists>st. tr' (pane_id pane) = Some st \<and> last_seen_active st = Some looks_active)"
  using assms
  by (simp add: maybe_notify_transition_def new_PaneState_def dispatches_log posts_log)

theorem first_observation_initializes_witness:
  "Map.empty (pane_id example_pane) = None \<and>
   (\<exists>tr' acts.
      maybe_notify_transition example_config (example_world 1700000000 ''idle'' (Inr 204))
          Map.empty example_pane False ''idle''
        = (tr', Initialized, acts)
      \<and> dispatches acts = 0 \<and> posts acts = 0
      \<and> (\<exists>st. tr' (pane_id example_pane) = Some st \<and> last_seen_active st = Some False))"
proof -
  have h: "Map.empty (pane_id example_pane) = None" by simp
  show ?thesis
    using h first_observation_initializes [OF h] by simp
qed

section \<open>Transition tracker: a run of five observations\<close>

text \<open>
  Claim C1.  For a pane identity the tracker has no entry for, the observations
  active, active, idle, idle, active give the events \<open>Initialized\<close>, \<open>NoChange\<close>,
  \<open>BecameIdle\<close>, \<open>NoChange\<close>, \<open>BecameActive\<close>, and the dispatcher is entered exactly once,
  during the third observation.
\<close>

theorem five_observations:
  assumes "tr (pane_id pane) = None"
  shows "fst (snd (observe_all cfg tr pane
            [(w1, True, b1), (w2, True, b2), (w3, False, b3), (w4, False, b4), (w5, True, b5)]))
          = [Initialized, NoChange, BecameIdle, NoChange, BecameActive]
       \<and> map dispatches (snd (snd (observe_all cfg tr pane
            [(w1, True, b1), (w2, True, b2), (w3, False, b3), (w4, False, b4), (w5, True, b5)])))
          = [0, 0, 1, 0, 0]"
  using assms
  by (simp add: maybe_notify_transition_def new_PaneState_def dispatches_log dispatches_send)

theorem five_observations_witness:
  "Map.empty (pane_id example_pane) = None \<and>
   fst (snd (observe_all example_config Map.empty example_pane
      [(example_world 10 ''12 tokens'' (Inr 204), True, ''12 tokens''),
       (example_world 20 ''13 tokens'' (Inr 204), True, ''13 tokens''),
       (example_world 30 ''done'' (Inr 204), False, ''done''),
       (example_world 40 ''done'' (Inr 204), False, ''done''),
       (example_world 50 ''7 tokens'' (Inr 204), True, ''7 tokens'')]))
     = [Initialized, NoChange, BecameIdle, NoChange, BecameActive] \<and>
   map dispatches (snd (snd (observe_all example_config Map.empty example_pane
      [(example_world 10 ''12 tokens'' (Inr 204), True, ''12 tokens''),
       (example_world 20 ''13 tokens'' (Inr 204), True, ''13 tokens''),
       (example_world 30 ''done'' (Inr 204), False, ''done''),
       (example_world 40 ''done'' (Inr 204), False, ''done''),
       (example_world 50 ''7 tokens'' (Inr 204), True, ''7 tokens'')])))
     = [0, 0, 1, 0, 0]"
proof -
  have h: "Map.empty (pane_id example_pane) = None" by simp
  show ?thesis
    using h five_observations [OF h] by simp
qed

section \<open>Transition tracker: unchanged observations and the stored timestamp\<close>

lemma nochange_step:
  assumes "tr (pane_id pane) = Some st" and "last_seen_active st = Some b"
  shows "maybe_notify_transition cfg w tr pane b buffer_text = (tr, NoChange, [])"
proof -
  have "st\<lparr>last_seen_active := Some b\<rparr> = st" using assms(2) by simp
  then have "tr(pane_id pane \<mapsto> st\<lparr>last_seen_active := Some b\<rparr>) = tr"
    using assms(1) by (simp add: map_upd_triv)
  then show ?thesis
    using assms by (simp add: maybe_notify_transition_def)
qed

lemma observe_all_nochange:
  assumes "tr (pane_id pane) = Some st" and "last_seen_active st = Some b"
    and "\<forall>obs\<in>set obss. fst (snd obs) = b"
  shows "observe_all cfg tr pane obss
           = (tr, replicate (length obss) NoChange, replicate (length obss) [])"
  using assms(3)
proof (induction obss)
  case Nil
  then show ?case by simp
next
  case (Cons obs obss)
  obtain w a buf where obs: "obs = (w, a, buf)" by (cases obs) auto
  with Cons.prems have "a = b" by simp
  have step: "maybe_notify_transition cfg w tr pane b buf = (tr, NoChange, [])"
    using assms(1,2) by (rule nochange_step)
  from Cons.IH Cons.prems have "observe_all cfg tr pane obss
           = (tr, replicate (length obss) NoChange, replicate (length obss) [])"
    by simp
  with obs \<open>a = b\<close> step show ?case by simp
qed

lemma step_timestamp:
  assumes "maybe_notify_transition cfg w tr pane a buf = (tr1, ev, acts)"
  shows "\<exists>st1. tr1 (pane_id pane) = Some st1 \<and>
           last_transition_ts st1 = (if ev = NoChange then stored_ts tr pane else time_now w)"
  using assms
  by (auto simp: maybe_notify_transition_def new_PaneState_def stored_ts_def Let_def
      split: option.splits if_splits)

lemma observe_all_timestamp:
  assumes "observe_all cfg tr pane obss = (tr', evs, actss)" and "obss \<noteq> []"
  shows "\<exists>st. tr' (pane_id pane) = Some st \<and>
           last_transition_ts st = last_event_time (stored_ts tr pane) (zip obss evs)"
  using assms
proof (induction obss arbitrary: tr tr' evs actss)
  case Nil
  then show ?case by simp
next
  case (Cons obs obss)
  obtain w a buf where obs: "obs = (w, a, buf)" by (cases obs) auto
  obtain tr1 ev acts where step: "maybe_notify_transition cfg w tr pane a buf = (tr1, ev, acts)"
    by (cases "maybe_notify_transition cfg w tr pane a buf") auto
  obtain tr2 evs2 actss2 where rest: "observe_all cfg tr1 pane obss = (tr2, evs2, actss2)"
    by (cases "observe_all cfg tr1 pane obss") auto
  from Cons.prems(1) obs step rest have eqs: "tr' = tr2" "evs = ev # evs2"
    by auto
  from step_timestamp [OF step] obtain st1 where st1: "tr1 (pane_id pane) = Some st1"
    "last_transition_ts st1 = (if ev = NoChange then stored_ts tr pane else time_now w)"
    by blast
  show ?case
  proof (cases "obss = []")
    case True
    with rest have "tr2 = tr1" "evs2 = []" by auto
    with st1 eqs obs True show ?thesis by simp
  next
    case False
    from Cons.IH [OF rest False] obtain st where
      "tr2 (pane_id pane) = Some st"
      "last_transition_ts st = last_event_time (stored_ts tr1 pane) (zip obss evs2)"
      by blast
    moreover have "stored_ts tr1 pane = (if ev = NoChange then stored_ts tr pane else time_now w)"
      using st1 by (simp add: stored_ts_def)
    ultimately show ?thesis using eqs obs by simp
  qed
qed

lemma last_event_time_nonzero:
  assumes "\<forall>x\<in>set xs. time_now (fst (fst x)) \<noteq> 0" and "t \<noteq> 0"
  shows "last_event_time t xs \<noteq> 0"
  using assms by (induction t xs rule: last_event_time.induct) auto

lemma set_zip_fst: "x \<in> set (zip xs ys) \<Longrightarrow> fst x \<in> set xs"
  by (cases x) (auto dest: set_zip_leftD)



text \<open>
  Claim C4.  Once a pane has a stored last-known value, any number of observations equal
  to it leave the tracker as it was (so the stored value and the stored timestamp of the
  pane are unchanged), each yields \<open>NoChange\<close>, and none performs any action: the
  dispatcher is not entered and nothing is posted.
\<close>

theorem repeated_nochange:
  assumes "tr (pane_id pane) = Some st" and "last_seen_active st = Some b"
    and "\<forall>obs\<in>set obss. fst (snd obs) = b"
  shows "fst (observe_all cfg tr pane obss) = tr
       \<and> fst (observe_all cfg tr pane obss) (pane_id pane) = Some st
       \<and> fst (snd (observe_all cfg tr pane obss)) = replicate (length obss) NoChange
       \<and> (\<forall>acts\<in>set (snd (snd (observe_all cfg tr pane obss))).
            acts = [] \<and> dispatches acts = 0 \<and> posts acts = 0)"
  using observe_all_nochange [where tr = tr and pane = pane and cfg = cfg, OF assms] assms(1)
  by simp

theorem repeated_nochange_witness:
  "[''%3'' \<mapsto> \<lparr>last_seen_active = Some False, last_transition_ts = 30\<rparr>] (pane_id example_pane)
     = Some \<lparr>last_seen_active = Some False, last_transition_ts = 30\<rparr> \<and>
   last_seen_active \<lparr>last_seen_active = Some False, last_transition_ts = 30\<rparr> = Some False \<and>
   fst (observe_all example_config
          [''%3'' \<mapsto> \<lparr>last_seen_active = Some False, last_transition_ts = 30\<rparr>] example_pane
          [(example_world 40 ''done'' (Inr 204), False, ''done''),
           (example_world 50 ''done'' (Inr 204), False, ''done''),
           (example_world 60 ''done'' (Inr 204), False, ''done'')])
     (pane_id example_pane)
     = Some \<lparr>last_seen_active = Some False, last_transition_ts = 30\<rparr> \<and>
   fst (snd (observe_all example_config
          [''%3'' \<mapsto> \<lparr>last_seen_active = Some False, last_transition_ts = 30\<rparr>] example_pane
          [(example_world 40 ''done'' (Inr 204), False, ''done''),
           (example_world 50 ''done'' (Inr 204), False, ''done''),
           (example_world 60 ''done'' (Inr 204), False, ''done'')]))
     = [NoChange, NoChange, NoChange]"
proof -
  have h1: "[''%3'' \<mapsto> \<lparr>last_seen_active = Some False, last_transition_ts = 30\<rparr>]
              (pane_id example_pane)
            = Some \<lparr>last_seen_active = Some False, last_transition_ts = 30\<rparr>"
    by (simp add: example_pane_def)
  have h2: "last_seen_active \<lparr>last_seen_active = Some False, last_transition_ts = 30\<rparr> = Some False"
    by simp
  have h3: "\<forall>obs\<in>set [(example_world 40 ''done'' (Inr 204), False, ''done''),
               (example_world 50 ''done'' (Inr 204), False, ''done''),
               (example_world 60 ''done'' (Inr 204), False, ''done'')]. fst (snd obs) = False"
    by simp
  show ?thesis
    using h1 h2
      repeated_nochange
        [where tr = "[''%3'' \<mapsto> \<lparr>last_seen_active = Some False, last_transition_ts = 30\<rparr>]"
           and pane = example_pane and cfg = example_config, OF h1 h2 h3]
    by (simp add: numeral_3_eq_3)
qed


text \<open>
  Claim C10.  The first observation of a pane stores the clock reading of that moment as
  the pane's timestamp, although nothing has changed.  After any run of observations
  that starts with the first one, the stored timestamp is the clock reading of the most
  recent observation whose event was \<open>Initialized\<close>, \<open>BecameIdle\<close> or \<open>BecameActive\<close>; it is
  not zero when no clock reading is zero (\<^verbatim>\<open>time.time()\<close> counts seconds since 1970).
\<close>

theorem timestamp_from_first_observation:
  assumes "tr (pane_id pane) = None"
  shows "(\<exists>tr1 acts st1.
            maybe_notify_transition cfg w tr pane a buf = (tr1, Initialized, acts) \<and>
            tr1 (pane_id pane) = Some st1 \<and> last_transition_ts st1 = time_now w)
       \<and> (\<exists>st. fst (observe_all cfg tr pane ((w, a, buf) # obss)) (pane_id pane) = Some st \<and>
               last_transition_ts st
                 = last_event_time 0
                     (zip ((w, a, buf) # obss)
                        (fst (snd (observe_all cfg tr pane ((w, a, buf) # obss))))) \<and>
               (time_now w \<noteq> 0 \<and> (\<forall>obs\<in>set obss. time_now (fst obs) \<noteq> 0)
                  \<longrightarrow> last_transition_ts st \<noteq> 0))"
proof (intro conjI)
  show "\<exists>tr1 acts st1.
            maybe_notify_transition cfg w tr pane a buf = (tr1, Initialized, acts) \<and>
            tr1 (pane_id pane) = Some st1 \<and> last_transition_ts st1 = time_now w"
    using assms by (simp add: maybe_notify_transition_def new_PaneState_def)
next
  obtain tr' evs actss where
    run: "observe_all cfg tr pane ((w, a, buf) # obss) = (tr', evs, actss)"
    by (cases "observe_all cfg tr pane ((w, a, buf) # obss)") auto
  have s0: "stored_ts tr pane = 0" using assms by (simp add: stored_ts_def)
  from observe_all_timestamp [OF run] s0 obtain st where st:
    "tr' (pane_id pane) = Some st"
    "last_transition_ts st = last_event_time 0 (zip ((w, a, buf) # obss) evs)"
    by auto
  obtain tr1 acts where
    first: "maybe_notify_transition cfg w tr pane a buf = (tr1, Initialized, acts)"
    using assms by (simp add: maybe_notify_transition_def new_PaneState_def)
  obtain tr2 evs2 actss2 where rest: "observe_all cfg tr1 pane obss = (tr2, evs2, actss2)"
    by (cases "observe_all cfg tr1 pane obss") auto
  from run first rest have evs: "evs = Initialized # evs2" by auto
  have nz: "last_transition_ts st \<noteq> 0"
    if "time_now w \<noteq> 0 \<and> (\<forall>obs\<in>set obss. time_now (fst obs) \<noteq> 0)"
  proof -
    have "\<forall>x\<in>set (zip obss evs2). time_now (fst (fst x)) \<noteq> 0"
      using that set_zip_fst by blast
    then have "last_event_time (time_now w) (zip obss evs2) \<noteq> 0"
      using that by (intro last_event_time_nonzero) auto
    then show ?thesis using st(2) evs by simp
  qed
  show "\<exists>st. fst (observe_all cfg tr pane ((w, a, buf) # obss)) (pane_id pane) = Some st \<and>
               last_transition_ts st
                 = last_event_time 0
                     (zip ((w, a, buf) # obss)
                        (fst (snd (observe_all cfg tr pane ((w, a, buf) # obss))))) \<and>
               (time_now w \<noteq> 0 \<and> (\<forall>obs\<in>set obss. time_now (fst obs) \<noteq> 0)
                  \<longrightarrow> last_transition_ts st \<noteq> 0)"
    using st nz run by auto
qed

theorem timestamp_from_first_observation_witness:
  "Map.empty (pane_id example_pane) = None \<and>
   (\<exists>tr1 acts st1.
      maybe_notify_transition example_config (example_world 10 ''idle'' (Inr 204))
          Map.empty example_pane False ''idle''
        = (tr1, Initialized, acts) \<and>
      tr1 (pane_id example_pane) = Some st1 \<and> last_transition_ts st1 = 10) \<and>
   (\<exists>st. fst (observe_all example_config Map.empty example_pane
              [(example_world 10 ''idle'' (Inr 204), False, ''idle''),
               (example_world 20 ''idle'' (Inr 204), False, ''idle''),
               (example_world 30 ''9 tokens'' (Inr 204), True, ''9 tokens''),
               (example_world 40 ''9 tokens'' (Inr 204), True, ''9 tokens'')])
            (pane_id example_pane) = Some st \<and>
          last_transition_ts st = 30 \<and> last_transition_ts st \<noteq> 0)"
proof -
  have h: "Map.empty (pane_id example_pane) = None" by simp
  show ?thesis
    using h timestamp_from_first_observation
              [OF h, where cfg = example_config and w = "example_world 10 ''idle'' (Inr 204)"
                 and a = False and buf = "''idle''"
                 and obss = "[(example_world 20 ''idle'' (Inr 204), False, ''idle''),
                   (example_world 30 ''9 tokens'' (Inr 204), True, ''9 tokens''),
                   (example_world 40 ''9 tokens'' (Inr 204), True, ''9 tokens'')]"]
    by (simp add: maybe_notify_transition_def example_world_def new_PaneState_def)
qed

section \<open>Evaluated examples\<close>

lemma found_cursor_agent: "found DEFAULT_MATCH_COMMAND ''cursor-agent''"
  by code_simp

lemma not_found_zsh: "\<not> found DEFAULT_MATCH_COMMAND ''zsh''"
  by code_simp

lemma found_text: "found DEFAULT_MATCH_TEXT ''Cursor Agent ready''"
  by code_simp

lemma not_found_text: "\<not> found DEFAULT_MATCH_TEXT ''ls -la''"
  by code_simp

lemma strip_main: "strip (''main'' @ [LF]) = ''main''"
  by code_simp

lemma not_active_done: "\<not> detect_active ''done''"
  by code_simp

section \<open>Monitoring filter\<close>

text \<open>
  Claim C5.  A pane whose current command matches the configured command pattern is
  monitored whatever its buffer holds.  When the command does not match, the pane is
  monitored exactly when a text pattern is configured, the 40-line capture succeeds and
  the captured text matches; a failed capture gives \<open>False\<close>, and so does a pane that
  matches neither pattern.
\<close>

theorem should_monitor_pane_cases:
  "((\<exists>m. match_command cfg = Some m \<and> m (current_command pane))
      \<longrightarrow> should_monitor_pane cfg w pane)
   \<and> (\<not> (\<exists>m. match_command cfg = Some m \<and> m (current_command pane))
      \<longrightarrow> (should_monitor_pane cfg w pane \<longleftrightarrow>
            (\<exists>m text. match_text cfg = Some m
                \<and> capture_pane_text w (pane_id pane) 40 = Inr text \<and> m text)))
   \<and> (\<not> (\<exists>m. match_command cfg = Some m \<and> m (current_command pane))
        \<and> (\<exists>exc. capture_pane_text w (pane_id pane) 40 = Inl exc)
      \<longrightarrow> \<not> should_monitor_pane cfg w pane)
   \<and> (\<not> (\<exists>m. match_command cfg = Some m \<and> m (current_command pane))
        \<and> \<not> (\<exists>m text. match_text cfg = Some m
                \<and> capture_pane_text w (pane_id pane) 40 = Inr text \<and> m text)
      \<longrightarrow> \<not> should_monitor_pane cfg w pane)"
  by (auto simp: should_monitor_pane_def Let_def split: option.splits sum.splits)

theorem should_monitor_pane_cases_witness:
  "should_monitor_pane example_config (example_world 1 ''ls -la'' (Inr 204)) example_pane
   \<and> should_monitor_pane example_config (example_world 1 ''Cursor Agent ready'' (Inr 204)) shell_pane
   \<and> \<not> should_monitor_pane example_config
         (failing_capture (example_world 1 ''Cursor Agent ready'' (Inr 204))) shell_pane
   \<and> \<not> should_monitor_pane example_config (example_world 1 ''ls -la'' (Inr 204)) shell_pane"
proof -
  have cmd: "\<exists>m. match_command example_config = Some m \<and> m (current_command example_pane)"
    using found_cursor_agent by (simp add: example_config_def Notifier_def example_pane_def)
  have nocmd: "\<not> (\<exists>m. match_command example_config = Some m \<and> m (current_command shell_pane))"
    using not_found_zsh
    by (simp add: example_config_def Notifier_def example_pane_def shell_pane_def)
  have bytext: "\<exists>m text. match_text example_config = Some m
      \<and> capture_pane_text (example_world 1 ''Cursor Agent ready'' (Inr 204)) (pane_id shell_pane) 40
          = Inr text \<and> m text"
    using found_text
    by (simp add: example_config_def Notifier_def example_world_def capture_pane_text_def)
  have fails: "\<exists>exc. capture_pane_text
      (failing_capture (example_world 1 ''Cursor Agent ready'' (Inr 204))) (pane_id shell_pane) 40
        = Inl exc"
    by (simp add: failing_capture_def example_world_def capture_pane_text_def)
  have notext: "\<not> (\<exists>m text. match_text example_config = Some m
      \<and> capture_pane_text (example_world 1 ''ls -la'' (Inr 204)) (pane_id shell_pane) 40
          = Inr text \<and> m text)"
    using not_found_text
    by (simp add: example_config_def Notifier_def example_world_def capture_pane_text_def)
  show ?thesis
    using cmd nocmd bytext fails notext
      should_monitor_pane_cases
        [of example_config example_pane "example_world 1 ''ls -la'' (Inr 204)"]
      should_monitor_pane_cases
        [of example_config shell_pane "example_world 1 ''Cursor Agent ready'' (Inr 204)"]
      should_monitor_pane_cases
        [of example_config shell_pane
           "failing_capture (example_world 1 ''Cursor Agent ready'' (Inr 204))"]
      should_monitor_pane_cases
        [of example_config shell_pane "example_world 1 ''ls -la'' (Inr 204)"]
    by blast
qed

section \<open>The notification message\<close>

lemma get_git_branch_cases:
  "get_git_branch w path =
     (case git_rev_parse w path of
        Inl exc \<Rightarrow> None
      | Inr cp \<Rightarrow> if returncode cp = 0 \<and> strip (stdout cp) \<noteq> [] \<and> strip (stdout cp) \<noteq> ''HEAD''
                  then Some (strip (stdout cp)) else None)"
  by (simp add: get_git_branch_def Let_def split: sum.splits)

lemma get_git_branch_nonempty: "get_git_branch w path = Some b \<Longrightarrow> b \<noteq> []"
  by (auto simp: get_git_branch_cases split: sum.splits if_splits)

lemma sublist_human_ref: "sublist (human_ref pane) (idle_message pane branch)"
  unfolding sublist_def idle_message_def Let_def
  by (cases branch) (auto intro: exI [of _ "''Cursor-Agent idle in ''"])

lemma sublist_current_path: "sublist (current_path pane) (idle_message pane branch)"
proof -
  let ?pre = "''Cursor-Agent idle in '' @ human_ref pane @ '' '' @ dash @ '' ''"
  have "idle_message pane branch = ?pre @ current_path pane @
          (case branch of None \<Rightarrow> [] | Some b \<Rightarrow> if b = [] then [] else '' (branch '' @ b @ '')'')"
    by (simp add: idle_message_def Let_def split: option.splits)
  then show ?thesis unfolding sublist_def by blast
qed

text \<open>
  Claim C7.  The message holds the reference \<^verbatim>\<open>session:window.pane\<close> and the working
  directory.  When the branch lookup completes with exit status 0 and its trimmed output
  is neither empty nor \<^verbatim>\<open>HEAD\<close>, the message is the base text followed by
  \<^verbatim>\<open> (branch <name>)\<close>; when the lookup raises, exits with another status, prints nothing
  or prints \<^verbatim>\<open>HEAD\<close>, the message is the base text alone and no error arises.  This is
  the message that is logged and posted.
\<close>

theorem idle_message_contents:
  "human_ref pane = session_name pane @ '':'' @ window_index pane @ ''.'' @ pane_index pane
   \<and> sublist (human_ref pane) (idle_message pane (get_git_branch w (current_path pane)))
   \<and> sublist (current_path pane) (idle_message pane (get_git_branch w (current_path pane)))
   \<and> (\<forall>cp. git_rev_parse w (current_path pane) = Inr cp \<and> returncode cp = 0
            \<and> strip (stdout cp) \<noteq> [] \<and> strip (stdout cp) \<noteq> ''HEAD''
        \<longrightarrow> idle_message pane (get_git_branch w (current_path pane))
              = ''Cursor-Agent idle in '' @ human_ref pane @ '' '' @ dash @ '' ''
                  @ current_path pane @ '' (branch '' @ strip (stdout cp) @ '')'')
   \<and> ((\<exists>exc. git_rev_parse w (current_path pane) = Inl exc)
        \<or> (\<exists>cp. git_rev_parse w (current_path pane) = Inr cp
                \<and> (returncode cp \<noteq> 0 \<or> strip (stdout cp) = [] \<or> strip (stdout cp) = ''HEAD''))
        \<longrightarrow> idle_message pane (get_git_branch w (current_path pane))
              = ''Cursor-Agent idle in '' @ human_ref pane @ '' '' @ dash @ '' ''
                  @ current_path pane)
   \<and> (verbose cfg \<longrightarrow>
        Print (''NOTIFY: '' @ idle_message pane (get_git_branch w (current_path pane)))
          \<in> set (send_idle_notification cfg w pane))
   \<and> (\<forall>url. \<not> dry_run cfg \<and> webhook_url cfg = Some url \<and> url \<noteq> []
        \<longrightarrow> HttpPost url (idle_message pane (get_git_branch w (current_path pane)))
              \<in> set (send_idle_notification cfg w pane))"
proof (intro conjI allI impI)
  show "human_ref pane = session_name pane @ '':'' @ window_index pane @ ''.'' @ pane_index pane"
    by (simp add: human_ref_def)
  show "sublist (human_ref pane) (idle_message pane (get_git_branch w (current_path pane)))"
    by (rule sublist_human_ref)
  show "sublist (current_path pane) (idle_message pane (get_git_branch w (current_path pane)))"
    by (rule sublist_current_path)
next
  fix cp
  assume "git_rev_parse w (current_path pane) = Inr cp \<and> returncode cp = 0
            \<and> strip (stdout cp) \<noteq> [] \<and> strip (stdout cp) \<noteq> ''HEAD''"
  then show "idle_message pane (get_git_branch w (current_path pane))
              = ''Cursor-Agent idle in '' @ human_ref pane @ '' '' @ dash @ '' ''
                  @ current_path pane @ '' (branch '' @ strip (stdout cp) @ '')''"
    by (simp add: get_git_branch_cases idle_message_def Let_def)
next
  assume "(\<exists>exc. git_rev_parse w (current_path pane) = Inl exc)
        \<or> (\<exists>cp. git_rev_parse w (current_path pane) = Inr cp
                \<and> (returncode cp \<noteq> 0 \<or> strip (stdout cp) = [] \<or> strip (stdout cp) = ''HEAD''))"
  then have "get_git_branch w (current_path pane) = None"
    by (auto simp: get_git_branch_cases)
  then show "idle_message pane (get_git_branch w (current_path pane))
              = ''Cursor-Agent idle in '' @ human_ref pane @ '' '' @ dash @ '' ''
                  @ current_path pane"
    by (simp add: idle_message_def Let_def)
next
  assume "verbose cfg"
  then show "Print (''NOTIFY: '' @ idle_message pane (get_git_branch w (current_path pane)))
          \<in> set (send_idle_notification cfg w pane)"
    by (simp add: send_idle_notification_def Let_def log_def)
next
  fix url
  assume "\<not> dry_run cfg \<and> webhook_url cfg = Some url \<and> url \<noteq> []"
  then show "HttpPost url (idle_message pane (get_git_branch w (current_path pane)))
              \<in> set (send_idle_notification cfg w pane)"
    by (auto simp: send_idle_notification_def Let_def post_discord_message_def
        split: sum.splits)
qed

theorem idle_message_contents_witness:
  "idle_message example_pane
      (get_git_branch (example_world 30 ''done'' (Inr 204)) (current_path example_pane))
     = ''Cursor-Agent idle in work:0.1 '' @ dash @ '' /home/u/proj (branch main)''
   \<and> idle_message example_pane
      (get_git_branch (no_repository (example_world 30 ''done'' (Inr 204)))
         (current_path example_pane))
     = ''Cursor-Agent idle in work:0.1 '' @ dash @ '' /home/u/proj''"
proof -
  let ?w = "example_world 30 ''done'' (Inr 204)"
  let ?cp = "\<lparr>returncode = 0, stdout = ''main'' @ [LF], stderr = []\<rparr>"
  have ok: "git_rev_parse ?w (current_path example_pane) = Inr ?cp \<and> returncode ?cp = 0
      \<and> strip (stdout ?cp) \<noteq> [] \<and> strip (stdout ?cp) \<noteq> ''HEAD''"
    using strip_main by (simp add: example_world_def)
  have bad: "(\<exists>exc. git_rev_parse (no_repository ?w) (current_path example_pane) = Inl exc)
        \<or> (\<exists>cp. git_rev_parse (no_repository ?w) (current_path example_pane) = Inr cp
                \<and> (returncode cp \<noteq> 0 \<or> strip (stdout cp) = [] \<or> strip (stdout cp) = ''HEAD''))"
    by (simp add: no_repository_def)
  have ref: "human_ref example_pane = ''work:0.1''"
    by (simp add: human_ref_def example_pane_def)
  have path: "current_path example_pane = ''/home/u/proj''"
    by (simp add: example_pane_def)
  from idle_message_contents [of example_pane ?w example_config] ok
  have "idle_message example_pane (get_git_branch ?w (current_path example_pane))
          = ''Cursor-Agent idle in '' @ human_ref example_pane @ '' '' @ dash @ '' ''
              @ current_path example_pane @ '' (branch '' @ strip (stdout ?cp) @ '')''"
    by blast
  moreover from idle_message_contents [of example_pane "no_repository ?w" example_config] bad
  have "idle_message example_pane (get_git_branch (no_repository ?w) (current_path example_pane))
          = ''Cursor-Agent idle in '' @ human_ref example_pane @ '' '' @ dash @ '' ''
              @ current_path example_pane"
    by blast
  ultimately show ?thesis
    using strip_main by (simp add: ref path)
qed

section \<open>The poll loop, unfolded\<close>

lemma process_pane_actions:
  "snd (process_pane cfg tr (pane, w)) =
     (if \<not> should_monitor_pane cfg w pane then []
      else case capture_pane_text w (pane_id pane) (scan_lines cfg) of
             Inl exc \<Rightarrow> log cfg (''Failed to capture '' @ human_ref pane @ '': '' @ exn_text exc)
           | Inr buf \<Rightarrow> snd (snd (maybe_notify_transition cfg w tr pane (detect_active buf) buf)))"
  by (simp add: process_pane_def Let_def split: prod.splits sum.splits)

lemma process_pane_monitored:
  assumes "should_monitor_pane cfg w pane"
    and "capture_pane_text w (pane_id pane) (scan_lines cfg) = Inr buf"
  shows "process_pane cfg tr (pane, w)
           = (fst (maybe_notify_transition cfg w tr pane (detect_active buf) buf),
              snd (snd (maybe_notify_transition cfg w tr pane (detect_active buf) buf)))"
  using assms by (simp add: process_pane_def Let_def split: prod.splits)

lemma poll_panes_Cons:
  "poll_panes cfg tr (pw # rest) =
     (fst (poll_panes cfg (fst (process_pane cfg tr pw)) rest),
      snd (process_pane cfg tr pw) @ snd (poll_panes cfg (fst (process_pane cfg tr pw)) rest))"
  by (simp split: prod.splits)

lemma poll_cycle_panes:
  "poll_cycle cfg tr (Inr panes) =
     (fst (poll_panes cfg tr panes), snd (poll_panes cfg tr panes) @ [Sleep (interval_seconds cfg)])"
  by (simp add: poll_cycle_def split: prod.splits)

lemma run_cycles_Cons:
  "run_cycles cfg tr (cyc # rest) =
     (fst (run_cycles cfg (fst (poll_cycle cfg tr cyc)) rest),
      snd (poll_cycle cfg tr cyc) @ snd (run_cycles cfg (fst (poll_cycle cfg tr cyc)) rest))"
  by (simp split: prod.splits)

section \<open>Dry run\<close>

lemma send_dry_run:
  "dry_run cfg \<Longrightarrow>
     send_idle_notification cfg w pane
       = Dispatch pane # log cfg (''NOTIFY: '' @ idle_message pane (get_git_branch w (current_path pane)))"
  by (simp add: send_idle_notification_def Let_def)

lemma posts_send_dry_run: "dry_run cfg \<Longrightarrow> posts (send_idle_notification cfg w pane) = 0"
  by (simp add: send_dry_run posts_log)

lemma posts_transition_dry_run:
  "dry_run cfg \<Longrightarrow> posts (snd (snd (maybe_notify_transition cfg w tr pane a buf))) = 0"
  by (simp add: maybe_notify_transition_def Let_def posts_log posts_send_dry_run
      split: option.splits)

lemma posts_process_pane_dry_run:
  "dry_run cfg \<Longrightarrow> posts (snd (process_pane cfg tr pw)) = 0"
  by (cases pw) (simp add: process_pane_actions posts_log posts_transition_dry_run split: sum.splits)

lemma posts_poll_panes_dry_run:
  "dry_run cfg \<Longrightarrow> posts (snd (poll_panes cfg tr panes)) = 0"
proof (induction panes arbitrary: tr)
  case Nil
  then show ?case by simp
next
  case (Cons pw panes)
  then show ?case
    by (simp only: poll_panes_Cons snd_conv posts_append posts_process_pane_dry_run)
qed

lemma posts_poll_cycle_dry_run:
  "dry_run cfg \<Longrightarrow> posts (snd (poll_cycle cfg tr cyc)) = 0"
proof (cases cyc)
  case (Inl exc)
  then show ?thesis by (simp add: poll_cycle_def posts_append posts_log)
next
  case (Inr panes)
  assume "dry_run cfg"
  with Inr show ?thesis
    by (simp add: poll_cycle_panes posts_append posts_poll_panes_dry_run)
qed

lemma posts_run_cycles_dry_run:
  "dry_run cfg \<Longrightarrow> posts (snd (run_cycles cfg tr cycles)) = 0"
proof (induction cycles arbitrary: tr)
  case Nil
  then show ?case by simp
next
  case (Cons cyc cycles)
  then show ?case
    by (simp only: run_cycles_Cons snd_conv posts_append posts_poll_cycle_dry_run)
qed

lemma send_prefix:
  "prefix (send_idle_notification (cfg\<lparr>dry_run := True\<rparr>) w pane)
          (send_idle_notification (cfg\<lparr>dry_run := False\<rparr>) w pane)"
  by (simp add: send_idle_notification_def Let_def log_def)

text \<open>
  Claim C8.  In dry-run mode the dispatcher builds the message and hands it to \<^verbatim>\<open>log\<close>
  exactly as it does otherwise (its actions are an initial part of the actions without
  dry run; \<^verbatim>\<open>log\<close> prints when \<^verbatim>\<open>verbose\<close> is set, in both modes), and then returns: an
  active-to-idle observation performs no POST, and no run of poll cycles does.
\<close>

theorem dry_run_posts_nothing:
  assumes "dry_run cfg"
  shows "send_idle_notification cfg w pane
           = Dispatch pane
             # log cfg (''NOTIFY: '' @ idle_message pane (get_git_branch w (current_path pane)))
       \<and> posts (send_idle_notification cfg w pane) = 0
       \<and> prefix (send_idle_notification cfg w pane)
                (send_idle_notification (cfg\<lparr>dry_run := False\<rparr>) w pane)
       \<and> (\<forall>st. tr (pane_id pane) = Some st \<and> last_seen_active st = Some True \<longrightarrow>
            snd (maybe_notify_transition cfg w tr pane False buf)
              = (BecameIdle, send_idle_notification cfg w pane))
       \<and> posts (snd (run_cycles cfg tr cycles)) = 0"
proof (intro conjI allI impI)
  show "send_idle_notification cfg w pane
           = Dispatch pane
             # log cfg (''NOTIFY: '' @ idle_message pane (get_git_branch w (current_path pane)))"
    using assms by (rule send_dry_run)
  show "posts (send_idle_notification cfg w pane) = 0"
    using assms by (rule posts_send_dry_run)
  have "cfg\<lparr>dry_run := True\<rparr> = cfg" using assms by simp
  then show "prefix (send_idle_notification cfg w pane)
                (send_idle_notification (cfg\<lparr>dry_run := False\<rparr>) w pane)"
    using send_prefix [of cfg w pane] by simp
  show "posts (snd (run_cycles cfg tr cycles)) = 0"
    using assms by (rule posts_run_cycles_dry_run)
next
  fix st
  assume "tr (pane_id pane) = Some st \<and> last_seen_active st = Some True"
  then show "snd (maybe_notify_transition cfg w tr pane False buf)
              = (BecameIdle, send_idle_notification cfg w pane)"
    by (simp add: maybe_notify_transition_def)
qed

theorem dry_run_posts_nothing_witness:
  "dry_run (example_config\<lparr>dry_run := True\<rparr>)
   \<and> send_idle_notification (example_config\<lparr>dry_run := True\<rparr>)
        (example_world 30 ''done'' (Inr 204)) example_pane
       = [Dispatch example_pane,
          Print (''NOTIFY: Cursor-Agent idle in work:0.1 '' @ dash @ '' /home/u/proj (branch main)'')]
   \<and> posts (send_idle_notification (example_config\<lparr>dry_run := True\<rparr>)
        (example_world 30 ''done'' (Inr 204)) example_pane) = 0
   \<and> posts (send_idle_notification example_config
        (example_world 30 ''done'' (Inr 204)) example_pane) = 1"
proof -
  let ?w = "example_world 30 ''done'' (Inr 204)"
  have h: "dry_run (example_config\<lparr>dry_run := True\<rparr>)" by simp
  have v: "verbose (example_config\<lparr>dry_run := True\<rparr>)"
    by (simp add: example_config_def Notifier_def)
  have m: "idle_message example_pane (get_git_branch ?w (current_path example_pane))
             = ''Cursor-Agent idle in work:0.1 '' @ dash @ '' /home/u/proj (branch main)''"
    using strip_main
    by (simp add: idle_message_def get_git_branch_def example_world_def example_pane_def
        human_ref_def Let_def)
  have n: "posts (send_idle_notification example_config ?w example_pane) = 1"
    by (simp add: send_idle_notification_def Let_def post_discord_message_def log_def
        example_config_def Notifier_def example_world_def posts_append)
  from dry_run_posts_nothing [OF h, of ?w example_pane]
  show ?thesis
    using h v m n by (simp add: log_def)
qed

section \<open>Failed delivery\<close>

text \<open>
  Delivery fails when the URL is missing, when opening the request raises (timeout,
  transport error, error status raised by the library) or when the status is outside
  200..299.
\<close>

lemma post_fails_cases:
  "(\<exists>exc. fst (post_discord_message cfg w m) = Inl exc) \<longleftrightarrow>
     (webhook_url cfg = None \<or> webhook_url cfg = Some [] \<or>
      (\<exists>url. webhook_url cfg = Some url \<and>
         ((\<exists>exc. urlopen w url m = Inl exc) \<or>
          (\<exists>status. urlopen w url m = Inr status \<and> \<not> (200 \<le> status \<and> status < 300)))))"
  by (auto simp: post_discord_message_def split: option.splits sum.splits)

lemma send_failed:
  assumes "\<not> dry_run cfg"
    and "fst (post_discord_message cfg w (idle_message pane (get_git_branch w (current_path pane))))
           = Inl exc"
  shows "send_idle_notification cfg w pane
           = Dispatch pane
             # log cfg (''NOTIFY: '' @ idle_message pane (get_git_branch w (current_path pane)))
             @ snd (post_discord_message cfg w
                      (idle_message pane (get_git_branch w (current_path pane))))
             @ log cfg (''Failed to send webhook: '' @ exn_text exc)"
  using assms
  by (cases "post_discord_message cfg w (idle_message pane (get_git_branch w (current_path pane)))")
     (simp add: send_idle_notification_def Let_def)

text \<open>
  Claim C6.  When the delivery of an idle notification fails, the exception is caught
  inside the dispatcher (a line is logged), and the active-to-idle transition is
  committed all the same: the stored value becomes idle and the timestamp is the clock
  reading.  At most one POST is made; a further idle observation is \<open>NoChange\<close> with no
  action, so the transition is not retried; and the poll loop goes on with the remaining
  panes, sleeps, and runs the following cycles.
\<close>

theorem failed_delivery_commits:
  assumes "\<not> dry_run cfg"
    and "tr (pane_id pane) = Some st" and "last_seen_active st = Some True"
    and "fst (post_discord_message cfg w
                (idle_message pane (get_git_branch w (current_path pane)))) = Inl exc"
  shows "maybe_notify_transition cfg w tr pane False buf
           = (tr(pane_id pane \<mapsto>
                   \<lparr>last_seen_active = Some False, last_transition_ts = time_now w\<rparr>),
              BecameIdle,
              Dispatch pane
              # log cfg (''NOTIFY: '' @ idle_message pane (get_git_branch w (current_path pane)))
              @ snd (post_discord_message cfg w
                       (idle_message pane (get_git_branch w (current_path pane))))
              @ log cfg (''Failed to send webhook: '' @ exn_text exc))
       \<and> posts (snd (snd (maybe_notify_transition cfg w tr pane False buf))) \<le> 1
       \<and> dispatches (snd (snd (maybe_notify_transition cfg w tr pane False buf))) = 1
       \<and> maybe_notify_transition cfg w2
            (fst (maybe_notify_transition cfg w tr pane False buf)) pane False buf2
           = (fst (maybe_notify_transition cfg w tr pane False buf), NoChange, [])
       \<and> (should_monitor_pane cfg w pane
            \<and> capture_pane_text w (pane_id pane) (scan_lines cfg) = Inr buf
            \<and> \<not> detect_active buf \<longrightarrow>
          run_cycles cfg tr (Inr ((pane, w) # rest) # later)
            = (fst (run_cycles cfg
                      (fst (poll_panes cfg
                              (fst (maybe_notify_transition cfg w tr pane False buf)) rest))
                      later),
               snd (snd (maybe_notify_transition cfg w tr pane False buf))
               @ snd (poll_panes cfg (fst (maybe_notify_transition cfg w tr pane False buf)) rest)
               @ [Sleep (interval_seconds cfg)]
               @ snd (run_cycles cfg
                        (fst (poll_panes cfg
                                (fst (maybe_notify_transition cfg w tr pane False buf)) rest))
                        later)))"
proof -
  let ?tr' = "tr(pane_id pane \<mapsto> \<lparr>last_seen_active = Some False, last_transition_ts = time_now w\<rparr>)"
  have step: "maybe_notify_transition cfg w tr pane False buf
           = (?tr', BecameIdle, send_idle_notification cfg w pane)"
    using assms(2,3) by (cases st) (simp add: maybe_notify_transition_def)
  have sent: "send_idle_notification cfg w pane
           = Dispatch pane
              # log cfg (''NOTIFY: '' @ idle_message pane (get_git_branch w (current_path pane)))
              @ snd (post_discord_message cfg w
                       (idle_message pane (get_git_branch w (current_path pane))))
              @ log cfg (''Failed to send webhook: '' @ exn_text exc)"
    using assms(1,4) by (rule send_failed)
  have again: "maybe_notify_transition cfg w2 ?tr' pane False buf2 = (?tr', NoChange, [])"
    by (rule nochange_step
          [where st = "\<lparr>last_seen_active = Some False, last_transition_ts = time_now w\<rparr>"])
       simp_all
  have loop: "run_cycles cfg tr (Inr ((pane, w) # rest) # later)
            = (fst (run_cycles cfg (fst (poll_panes cfg ?tr' rest)) later),
               send_idle_notification cfg w pane
               @ snd (poll_panes cfg ?tr' rest)
               @ [Sleep (interval_seconds cfg)]
               @ snd (run_cycles cfg (fst (poll_panes cfg ?tr' rest)) later))"
    if "should_monitor_pane cfg w pane
            \<and> capture_pane_text w (pane_id pane) (scan_lines cfg) = Inr buf
            \<and> \<not> detect_active buf"
  proof -
    have "process_pane cfg tr (pane, w) = (?tr', send_idle_notification cfg w pane)"
      using that step by (simp add: process_pane_monitored)
    then show ?thesis
      by (simp add: run_cycles_Cons poll_cycle_panes poll_panes_Cons
          del: run_cycles.simps(2) poll_panes.simps(2))
  qed
  show ?thesis
    using step sent again loop posts_send [of cfg w pane] dispatches_send [of cfg w pane]
    by (simp del: fun_upd_apply)
qed

theorem failed_delivery_commits_witness:
  "\<not> dry_run example_config
   \<and> was_active (pane_id example_pane)
       = Some \<lparr>last_seen_active = Some True, last_transition_ts = 10\<rparr>
   \<and> fst (post_discord_message example_config (example_world 30 ''done'' timed_out)
            (idle_message example_pane
               (get_git_branch (example_world 30 ''done'' timed_out) (current_path example_pane))))
       = Inl (OtherError ''timed out'')
   \<and> should_monitor_pane example_config (example_world 30 ''done'' timed_out) example_pane
   \<and> capture_pane_text (example_world 30 ''done'' timed_out) (pane_id example_pane)
        (scan_lines example_config) = Inr ''done''
   \<and> \<not> detect_active ''done''
   \<and> fst (run_cycles example_config was_active
            [Inr [(example_pane, example_world 30 ''done'' timed_out)]]) (pane_id example_pane)
       = Some \<lparr>last_seen_active = Some False, last_transition_ts = 30\<rparr>
   \<and> posts (snd (run_cycles example_config was_active
                   [Inr [(example_pane, example_world 30 ''done'' timed_out)]])) = 1
   \<and> last (snd (run_cycles example_config was_active
                   [Inr [(example_pane, example_world 30 ''done'' timed_out)]])) = Sleep 7"
proof -
  let ?w = "example_world 30 ''done'' timed_out"
  let ?st = "\<lparr>last_seen_active = Some True, last_transition_ts = 10\<rparr>"
  have h1: "\<not> dry_run example_config"
    by (simp add: example_config_def Notifier_def)
  have h2: "was_active (pane_id example_pane) = Some ?st"
    by (simp add: was_active_def example_pane_def)
  have h3: "last_seen_active ?st = Some True" by simp
  have h4: "fst (post_discord_message example_config ?w
            (idle_message example_pane (get_git_branch ?w (current_path example_pane))))
       = Inl (OtherError ''timed out'')"
    by (simp add: post_discord_message_def example_config_def Notifier_def example_world_def
        timed_out_def)
  have h5: "should_monitor_pane example_config ?w example_pane"
    using found_cursor_agent
    by (simp add: should_monitor_pane_def example_config_def Notifier_def example_pane_def)
  have h6: "capture_pane_text ?w (pane_id example_pane) (scan_lines example_config) = Inr ''done''"
    by (simp add: capture_pane_text_def example_world_def)
  have h7: "\<not> detect_active ''done''" by (rule not_active_done)
  have p: "snd (post_discord_message example_config ?w m)
             = [HttpPost ''https://discord.example/hook'' m]" for m
    by (simp add: post_discord_message_def example_config_def Notifier_def example_world_def
        timed_out_def)
  have i: "interval_seconds example_config = 7"
    by (simp add: example_config_def Notifier_def)
  note T = failed_delivery_commits
         [where tr = was_active and pane = example_pane and cfg = example_config and w = ?w
            and buf = "''done''" and rest = "[]" and later = "[]", OF h1 h2 h3 h4]
  let ?r = "maybe_notify_transition example_config ?w was_active example_pane False ''done''"
  from T have step: "fst ?r = was_active(pane_id example_pane \<mapsto>
                   \<lparr>last_seen_active = Some False, last_transition_ts = time_now ?w\<rparr>)"
    by simp
  from T have acts: "snd (snd ?r) = Dispatch example_pane
              # log example_config (''NOTIFY: '' @ idle_message example_pane
                    (get_git_branch ?w (current_path example_pane)))
              @ snd (post_discord_message example_config ?w
                       (idle_message example_pane (get_git_branch ?w (current_path example_pane))))
              @ log example_config (''Failed to send webhook: '' @ exn_text (OtherError ''timed out''))"
    by simp
  from T h5 h6 h7 have loop:
    "run_cycles example_config was_active [Inr [(example_pane, ?w)]]
       = (fst (run_cycles example_config (fst (poll_panes example_config (fst ?r) [])) []),
          snd (snd ?r) @ snd (poll_panes example_config (fst ?r) [])
          @ [Sleep (interval_seconds example_config)]
          @ snd (run_cycles example_config (fst (poll_panes example_config (fst ?r) [])) []))"
    by blast
  have t: "time_now ?w = 30" by (simp add: example_world_def)
  have final: "fst (run_cycles example_config was_active [Inr [(example_pane, ?w)]])
                 (pane_id example_pane)
               = Some \<lparr>last_seen_active = Some False, last_transition_ts = 30\<rparr>"
    by (subst loop) (simp add: step t)
  have count: "posts (snd (run_cycles example_config was_active [Inr [(example_pane, ?w)]])) = 1"
    by (subst loop) (simp add: acts p posts_append posts_log)
  have lst: "last (snd (run_cycles example_config was_active [Inr [(example_pane, ?w)]])) = Sleep 7"
    by (subst loop) (simp add: i)
  show ?thesis
    using h1 h2 h4 h5 h6 h7 final count lst by blast
qed

section \<open>Activity classifier: what the search finds\<close>

subsection \<open>Characters\<close>

lemma code_less_256: "code c < 256"
  by (simp add: code_def)

lemma char_of_code_add:
  "code c + n < 256 \<Longrightarrow> code (char_of (code c + n)) = code c + n"
  by (simp add: code_def)

lemma code_inj: "code a = code b \<Longrightarrow> a = b"
  by (simp add: code_def)

lemma digit_is_word: "is_digit c \<Longrightarrow> is_word c"
  by (simp add: is_digit_def is_word_def)

lemma space_not_word: "is_space c \<Longrightarrow> \<not> is_word c"
  by (auto simp: is_space_def is_word_def)

lemma space_not_digit: "is_space c \<Longrightarrow> \<not> is_digit c"
  by (auto simp: is_space_def is_digit_def)

lemma LF_space: "is_space LF" and LF_not_word: "\<not> is_word LF"
  by (simp_all add: is_space_def is_word_def LF_def code_def)

lemma code_py_lower:
  "code (py_lower c) =
     (if (65 \<le> code c \<and> code c \<le> 90) \<or> (192 \<le> code c \<and> code c \<le> 222 \<and> code c \<noteq> 215)
      then code c + 32 else code c)"
  by (simp add: py_lower_def char_of_code_add)

lemma letter_codes:
  assumes "code x \<in> {116, 111, 107, 101, 110, 115, 84, 79, 75, 69, 78, 83}"
  shows "is_word x \<and> \<not> is_space x \<and> \<not> is_digit x"
  using assms unfolding is_word_def is_space_def is_digit_def
  by (elim insertE emptyE) simp_all

lemma lower_letter_codes:
  assumes "code (py_lower x) \<in> {116, 111, 107, 101, 110, 115}"
  shows "code x \<in> {116, 111, 107, 101, 110, 115, 84, 79, 75, 69, 78, 83}"
proof (cases "(65 \<le> code x \<and> code x \<le> 90) \<or> (192 \<le> code x \<and> code x \<le> 222 \<and> code x \<noteq> 215)")
  case True
  with assms have "code x + 32 \<in> {116, 111, 107, 101, 110, 115}"
    by (simp only: code_py_lower if_True)
  then have "code x \<in> {84, 79, 75, 69, 78, 83}"
    by (elim insertE emptyE) simp_all
  then show ?thesis by blast
next
  case False
  with assms have "code x \<in> {116, 111, 107, 101, 110, 115}"
    by (simp only: code_py_lower if_False)
  then show ?thesis by blast
qed

lemma lower_letter_word:
  assumes "py_lower x \<in> set ''tokens''"
  shows "is_word x \<and> \<not> is_space x \<and> \<not> is_digit x"
proof -
  from assms have "code (py_lower x) \<in> code ` set ''tokens''" by blast
  then have "code (py_lower x) \<in> {116, 111, 107, 101, 110, 115}"
    by (simp add: code_def)
  then show ?thesis
    by (intro letter_codes lower_letter_codes)
qed

lemma py_lower_LF: "py_lower LF = LF"
  by (simp add: py_lower_def LF_def code_def)

lemma LF_not_letter: "py_lower LF \<notin> set (map py_lower ''tokens'')"
  by (simp add: py_lower_def LF_def code_def)

subsection \<open>Cursors\<close>

lemma prev_char_last: "xs \<noteq> [] \<Longrightarrow> prev_char p xs = Some (last xs)"
  by (induction xs arbitrary: p) auto

lemma prev_char_append: "prev_char p (xs @ ys) = prev_char (prev_char p xs) ys"
  by (induction xs arbitrary: p) auto

lemma occurs_ex:
  "occurs P p s \<longleftrightarrow> (\<exists>pre rest. s = pre @ rest \<and> P (prev_char p pre) rest)"
proof (induction s arbitrary: p)
  case Nil
  then show ?case by simp
next
  case (Cons c cs)
  show ?case
  proof
    assume "occurs P p (c # cs)"
    then consider "P p (c # cs)" | "occurs P (Some c) cs" by auto
    then show "\<exists>pre rest. c # cs = pre @ rest \<and> P (prev_char p pre) rest"
    proof cases
      case 1
      then have "c # cs = [] @ (c # cs) \<and> P (prev_char p []) (c # cs)" by simp
      then show ?thesis by blast
    next
      case 2
      with Cons.IH obtain pre rest where "cs = pre @ rest" "P (prev_char (Some c) pre) rest"
        by blast
      then have "c # cs = (c # pre) @ rest \<and> P (prev_char p (c # pre)) rest" by simp
      then show ?thesis by blast
    qed
  next
    assume "\<exists>pre rest. c # cs = pre @ rest \<and> P (prev_char p pre) rest"
    then obtain pre rest where eq: "c # cs = pre @ rest" and P: "P (prev_char p pre) rest"
      by blast
    show "occurs P p (c # cs)"
    proof (cases pre)
      case Nil
      with eq P have "P p (c # cs)" by simp
      then show ?thesis by simp
    next
      case (Cons d pre')
      with eq P have "cs = pre' @ rest" "P (prev_char (Some c) pre') rest" by auto
      with Cons.IH have "occurs P (Some c) cs" by blast
      then show ?thesis by simp
    qed
  qed
qed

lemma occurs_mono: "(\<And>q r. P q r \<Longrightarrow> Q q r) \<Longrightarrow> occurs P p s \<Longrightarrow> occurs Q p s"
  unfolding occurs_ex by blast

lemma occurs_nested: "occurs (occurs P) p s \<longleftrightarrow> occurs P p s"
proof
  assume "occurs (occurs P) p s"
  then obtain pre rest where s: "s = pre @ rest" and "occurs P (prev_char p pre) rest"
    unfolding occurs_ex [of "occurs P"] by blast
  then obtain pre2 rest2 where "rest = pre2 @ rest2" "P (prev_char (prev_char p pre) pre2) rest2"
    unfolding occurs_ex [of P] by blast
  with s have "s = (pre @ pre2) @ rest2 \<and> P (prev_char p (pre @ pre2)) rest2"
    by (simp add: prev_char_append)
  then show "occurs P p s" unfolding occurs_ex [of P] by blast
next
  assume "occurs P p s"
  then show "occurs (occurs P) p s"
    by (cases s) auto
qed

lemma search_occurs:
  "re_search_from ic r i (p, s) \<noteq> None \<longleftrightarrow> occurs (\<lambda>q t. re_match ic r (q, t) \<noteq> []) p s"
  by (induction s arbitrary: p i) (auto split: list.splits)

subsection \<open>Runs and literals\<close>

lemma run_split:
  assumes "\<forall>x\<in>set xs. P x" and "ys = [] \<or> \<not> P (hd ys)"
  shows "takeWhile P (xs @ ys) = xs \<and> dropWhile P (xs @ ys) = ys"
  using assms by (induction xs) (auto simp: takeWhile_eq_Nil_iff dropWhile_eq_self_iff)

lemma plus_ends_longest:
  "takeWhile P s \<noteq> [] \<Longrightarrow>
     (Some (last (takeWhile P s)), dropWhile P s) \<in> set (plus_ends P (p, s))"
proof (induction s arbitrary: p)
  case Nil
  then show ?case by simp
next
  case (Cons c cs)
  then have c: "P c" by (auto split: if_splits)
  show ?case
  proof (cases "takeWhile P cs = []")
    case True
    then have "dropWhile P cs = cs" by (cases cs) (auto split: if_splits)
    with True c show ?thesis by simp
  next
    case False
    from Cons.IH [OF False] c False show ?thesis by simp
  qed
qed

lemma plus_ends_run:
  "(q, r) \<in> set (plus_ends P (p, s)) \<Longrightarrow>
     \<exists>run. run \<noteq> [] \<and> s = run @ r \<and> (\<forall>c\<in>set run. P c) \<and> q = Some (last run)"
proof (induction s arbitrary: p)
  case Nil
  then show ?case by simp
next
  case (Cons c cs)
  then have c: "P c" by (auto split: if_splits)
  from Cons.prems c consider "(q, r) \<in> set (plus_ends P (Some c, cs))" | "q = Some c" "r = cs"
    by auto
  then show ?case
  proof cases
    case 1
    from Cons.IH [OF 1] obtain run where
      "run \<noteq> []" "cs = run @ r" "\<forall>c\<in>set run. P c" "q = Some (last run)" by blast
    with c have "c # run \<noteq> [] \<and> c # cs = (c # run) @ r \<and> (\<forall>x\<in>set (c # run). P x)
        \<and> q = Some (last (c # run))" by simp
    then show ?thesis by blast
  next
    case 2
    with c have "[c] \<noteq> [] \<and> c # cs = [c] @ r \<and> (\<forall>x\<in>set [c]. P x) \<and> q = Some (last [c])"
      by simp
    then show ?thesis by blast
  qed
qed

lemma ci_starts_Cons:
  "ci_starts (c # cs) s \<longleftrightarrow> (\<exists>x xs. s = x # xs \<and> py_lower x = py_lower c \<and> ci_starts cs xs)"
  by (cases s) (auto simp: ci_starts_def)

lemma ci_starts_Nil: "ci_starts [] s"
  by (simp add: ci_starts_def)

lemma lits_match:
  "re_match True (lits w) (p, s) =
     (if ci_starts w s then [(prev_char p (take (length w) s), drop (length w) s)] else [])"
proof (induction w arbitrary: p s)
  case Nil
  then show ?case by (simp add: ci_starts_Nil)
next
  case (Cons c cs)
  show ?case
  proof (cases s)
    case Nil
    then show ?thesis by (simp add: ci_starts_Cons)
  next
    case (Cons x xs)
    with Cons.IH [of "Some x" xs] show ?thesis
      by (simp add: ci_starts_Cons)
  qed
qed

subsection \<open>Word boundaries\<close>

lemma word_before_start: "word_before (q, t) \<longleftrightarrow> \<not> word_start q"
  by (cases q) auto

lemma word_after_end: "word_after (q, t) \<longleftrightarrow> \<not> word_end t"
  by (cases t) auto

lemma set_match_Seq:
  "set (re_match ic (Seq r1 r2) cur) = (\<Union>c\<in>set (re_match ic r1 cur). set (re_match ic r2 c))"
  by simp

lemma set_match_WordB:
  "set (re_match ic WordB cur) = (if word_before cur \<noteq> word_after cur then {cur} else {})"
  by simp

lemma py_lower_t: "py_lower CHR ''t'' \<in> set ''tokens''" and py_lower_s: "py_lower CHR ''s'' \<in> set ''tokens''"
  by (simp_all add: py_lower_def code_def)

lemma length_tokens: "length ''tokens'' = 6"
  by simp

lemma ci_starts_tokens:
  "ci_starts ''tokens'' s \<longleftrightarrow> 6 \<le> length s \<and> map py_lower (take 6 s) = map py_lower ''tokens''"
  by (simp only: ci_starts_def length_tokens)

lemma lits_tokens_match:
  "re_match True (lits ''tokens'') (p, s) =
     (if ci_starts ''tokens'' s then [(prev_char p (take 6 s), drop 6 s)] else [])"
  using lits_match [of "''tokens''" p s] by (simp only: length_tokens)

lemma set_match_digits:
  "set (re_match True (Seq (Plus Digit) (Seq (Plus Space) (lits ''tokens''))) cur) =
     (\<Union>c1\<in>set (plus_ends is_digit cur). \<Union>c2\<in>set (plus_ends is_space c1).
        set (re_match True (lits ''tokens'') c2))"
proof -
  have "atom_ok True Digit = is_digit" "atom_ok True Space = is_space"
    by (simp_all add: fun_eq_iff)
  then show ?thesis
    by (simp del: lits.simps)
qed

lemma ci_tokens_first:
  assumes "ci_starts ''tokens'' s"
  shows "\<exists>x xs. s = x # xs \<and> is_word x \<and> \<not> is_space x \<and> \<not> is_digit x"
proof -
  from assms obtain x xs where s: "s = x # xs" and "py_lower x = py_lower CHR ''t''"
    by (auto simp: ci_starts_Cons)
  with py_lower_t have "py_lower x \<in> set ''tokens''" by simp
  from lower_letter_word [OF this] s show ?thesis by blast
qed

lemma ci_tokens_last:
  assumes "ci_starts ''tokens'' s"
  shows "prev_char q (take 6 s) = Some (last (take 6 s)) \<and> is_word (last (take 6 s))"
proof -
  from assms have len: "6 \<le> length s" and eq: "map py_lower (take 6 s) = map py_lower ''tokens''"
    by (simp_all only: ci_starts_tokens)
  from len have ne: "take 6 s \<noteq> []" by auto
  then have "py_lower (last (take 6 s)) = last (map py_lower (take 6 s))"
    by (simp add: last_map)
  also have "\<dots> = py_lower CHR ''s''" by (simp only: eq) simp
  finally have "py_lower (last (take 6 s)) \<in> set ''tokens''" using py_lower_s by simp
  from lower_letter_word [OF this] prev_char_last [OF ne] show ?thesis by blast
qed

lemma tokens_branch:
  "(\<exists>c\<in>set (re_match True (lits ''tokens'') (q, r)). word_before c \<noteq> word_after c)
     \<longleftrightarrow> ci_starts ''tokens'' r \<and> word_end (drop 6 r)"
proof (cases "ci_starts ''tokens'' r")
  case True
  from ci_tokens_last [OF True, of q] True show ?thesis
    by (simp add: lits_tokens_match word_after_end del: lits.simps)
next
  case False
  then show ?thesis by (simp add: lits_tokens_match del: lits.simps)
qed

lemma digits_branch:
  "(\<exists>c\<in>set (re_match True (Seq (Plus Digit) (Seq (Plus Space) (lits ''tokens''))) (p, s)).
       word_before c \<noteq> word_after c)
     \<longleftrightarrow> takeWhile is_digit s \<noteq> [] \<and>
         takeWhile is_space (dropWhile is_digit s) \<noteq> [] \<and>
         ci_starts ''tokens'' (dropWhile is_space (dropWhile is_digit s)) \<and>
         word_end (drop 6 (dropWhile is_space (dropWhile is_digit s)))"
  (is "?L \<longleftrightarrow> ?R")
proof
  assume ?L
  then obtain c where c: "word_before c \<noteq> word_after c"
    and "c \<in> (\<Union>c1\<in>set (plus_ends is_digit (p, s)). \<Union>c2\<in>set (plus_ends is_space c1).
        set (re_match True (lits ''tokens'') c2))"
    unfolding set_match_digits by blast
  then obtain c1 c2 where c1': "c1 \<in> set (plus_ends is_digit (p, s))"
    and c2': "c2 \<in> set (plus_ends is_space c1)"
    and c3': "c \<in> set (re_match True (lits ''tokens'') c2)"
    by blast
  obtain q1 r1 where c1eq: "c1 = (q1, r1)" by (cases c1)
  obtain q2 r2 where c2eq: "c2 = (q2, r2)" by (cases c2)
  from c1' c1eq have c1: "(q1, r1) \<in> set (plus_ends is_digit (p, s))" by simp
  from c2' c1eq c2eq have c2: "(q2, r2) \<in> set (plus_ends is_space (q1, r1))" by simp
  from c3' c c2eq
  have c3: "\<exists>c\<in>set (re_match True (lits ''tokens'') (q2, r2)). word_before c \<noteq> word_after c"
    by blast
  from plus_ends_run [OF c1] obtain ds where
    ds: "ds \<noteq> []" "s = ds @ r1" "\<forall>c\<in>set ds. is_digit c" by blast
  from plus_ends_run [OF c2] obtain ws where
    ws: "ws \<noteq> []" "r1 = ws @ r2" "\<forall>c\<in>set ws. is_space c" by blast
  from c3 have tok: "ci_starts ''tokens'' r2" "word_end (drop 6 r2)"
    by (simp_all only: tokens_branch)
  from ci_tokens_first [OF tok(1)] have "r2 = [] \<or> \<not> is_space (hd r2)" by auto
  from run_split [OF ws(3) this] ws(2)
  have sp: "takeWhile is_space r1 = ws" "dropWhile is_space r1 = r2" by simp_all
  from ws have "is_space (hd r1)" by (cases ws) auto
  then have "r1 = [] \<or> \<not> is_digit (hd r1)" by (simp add: space_not_digit)
  from run_split [OF ds(3) this] ds(2)
  have dg: "takeWhile is_digit s = ds" "dropWhile is_digit s = r1" by simp_all
  from ds(1) ws(1) tok show ?R by (simp add: dg sp)
next
  assume R: ?R
  let ?r1 = "dropWhile is_digit s"
  let ?r2 = "dropWhile is_space ?r1"
  from R have c1: "(Some (last (takeWhile is_digit s)), ?r1) \<in> set (plus_ends is_digit (p, s))"
    by (intro plus_ends_longest) simp
  from R have c2: "(Some (last (takeWhile is_space ?r1)), ?r2)
      \<in> set (plus_ends is_space (Some (last (takeWhile is_digit s)), ?r1))"
    by (intro plus_ends_longest) simp
  from R have "\<exists>c\<in>set (re_match True (lits ''tokens'') (Some (last (takeWhile is_space ?r1)), ?r2)).
      word_before c \<noteq> word_after c"
    by (simp only: tokens_branch)
  then obtain c where
    c: "c \<in> set (re_match True (lits ''tokens'') (Some (last (takeWhile is_space ?r1)), ?r2))"
      "word_before c \<noteq> word_after c" by blast
  from c1 c2 c(1)
  have "c \<in> set (re_match True (Seq (Plus Digit) (Seq (Plus Space) (lits ''tokens''))) (p, s))"
    unfolding set_match_digits by blast
  with c(2) show ?L by blast
qed

lemma token_match_here:
  "re_match True (pat_regex TOKEN_REGEX) (p, s) \<noteq> []
     \<longleftrightarrow> tokens_here p s \<or> digits_tokens_here p s"
proof -
  let ?A1 = "Seq (Plus Digit) (Seq (Plus Space) (lits ''tokens''))"
  let ?A2 = "lits ''tokens''"
  have "re_match True (pat_regex TOKEN_REGEX) (p, s) \<noteq> []
          \<longleftrightarrow> set (re_match True (Seq WordB (Seq (Alt ?A1 ?A2) WordB)) (p, s)) \<noteq> {}"
    by (simp only: TOKEN_REGEX_def pattern.simps set_empty)
  also have "\<dots> \<longleftrightarrow> word_before (p, s) \<noteq> word_after (p, s) \<and>
      ((\<exists>c\<in>set (re_match True ?A1 (p, s)). word_before c \<noteq> word_after c) \<or>
       (\<exists>c\<in>set (re_match True ?A2 (p, s)). word_before c \<noteq> word_after c))"
    by (auto simp: set_match_WordB simp del: lits.simps split: if_splits)
  also have "\<dots> \<longleftrightarrow> tokens_here p s \<or> digits_tokens_here p s"
  proof -
    have a2: "word_after (p, s)" if "ci_starts ''tokens'' s"
      using ci_tokens_first [OF that] by auto
    have a1: "word_after (p, s)" if "takeWhile is_digit s \<noteq> []"
      using that by (cases s) (auto simp: digit_is_word split: if_splits)
    show ?thesis
      unfolding tokens_branch digits_branch tokens_here_def digits_tokens_here_def
      using a1 a2 by (auto simp: word_before_start)
  qed
  finally show ?thesis .
qed

lemma digits_here_tokens_later:
  assumes "digits_tokens_here p s"
  shows "occurs tokens_here p s"
proof -
  let ?ds = "takeWhile is_digit s"
  let ?r1 = "dropWhile is_digit s"
  let ?ws = "takeWhile is_space ?r1"
  let ?r2 = "dropWhile is_space ?r1"
  from assms have ws: "?ws \<noteq> []" and tok: "ci_starts ''tokens'' ?r2" "word_end (drop 6 ?r2)"
    by (simp_all add: digits_tokens_here_def)
  have s: "s = (?ds @ ?ws) @ ?r2" by simp
  from ws have "last ?ws \<in> set ?ws" by simp
  then have "is_space (last ?ws)" by (meson set_takeWhileD)
  then have "word_start (Some (last ?ws))" by (simp add: space_not_word)
  moreover from ws have "prev_char p (?ds @ ?ws) = Some (last ?ws)"
    by (simp add: prev_char_last)
  ultimately have "tokens_here (prev_char p (?ds @ ?ws)) ?r2"
    using tok by (simp add: tokens_here_def)
  with s show ?thesis unfolding occurs_ex by blast
qed

lemma digits_tokens_standalone: "digits_tokens line \<Longrightarrow> standalone_tokens line"
  unfolding digits_tokens_def standalone_tokens_def
  using occurs_mono [of digits_tokens_here "occurs tokens_here", OF digits_here_tokens_later]
  by (simp add: occurs_nested)

lemma search_tokens: "search TOKEN_REGEX s \<noteq> None \<longleftrightarrow> standalone_tokens s"
proof -
  have "search TOKEN_REGEX s \<noteq> None
          \<longleftrightarrow> occurs (\<lambda>q t. tokens_here q t \<or> digits_tokens_here q t) None s"
  proof -
    have "pat_ignorecase TOKEN_REGEX = True" by (simp add: TOKEN_REGEX_def)
    then show ?thesis
      by (simp only: search_def search_occurs token_match_here)
  qed
  also have "\<dots> \<longleftrightarrow> occurs tokens_here None s"
  proof
    assume "occurs (\<lambda>q t. tokens_here q t \<or> digits_tokens_here q t) None s"
    then have "occurs (occurs tokens_here) None s"
    proof (rule occurs_mono [rotated])
      fix q r assume "tokens_here q r \<or> digits_tokens_here q r"
      then show "occurs tokens_here q r"
      proof
        assume "tokens_here q r"
        then show ?thesis by (cases r) simp_all
      next
        assume "digits_tokens_here q r"
        then show ?thesis by (rule digits_here_tokens_later)
      qed
    qed
    then show "occurs tokens_here None s" by (simp add: occurs_nested)
  next
    assume "occurs tokens_here None s"
    then show "occurs (\<lambda>q t. tokens_here q t \<or> digits_tokens_here q t) None s"
      by (rule occurs_mono [rotated]) simp
  qed
  finally show ?thesis by (simp add: standalone_tokens_def)
qed

subsection \<open>Occurrences and line feeds\<close>

lemma word_end_before_LF: "word_end (xs @ LF # ys) = word_end xs"
  by (cases xs) (simp_all add: LF_not_word)

lemma tokens_here_before_LF: "tokens_here p (a @ LF # b) \<longleftrightarrow> tokens_here p a"
proof (cases "6 \<le> length a")
  case True
  then show ?thesis
    by (simp add: tokens_here_def ci_starts_tokens word_end_before_LF)
next
  case False
  then have "LF \<in> set (take 6 (a @ LF # b))" by (simp add: take_Cons')
  then have "py_lower LF \<in> py_lower ` set (take 6 (a @ LF # b))" by (rule imageI)
  then have "py_lower LF \<in> set (map py_lower (take 6 (a @ LF # b)))" by (simp only: set_map)
  moreover have "py_lower LF \<notin> set (map py_lower ''tokens'')" by (rule LF_not_letter)
  ultimately have "map py_lower (take 6 (a @ LF # b)) \<noteq> map py_lower ''tokens''"
    by (rule_tac notI) (simp only:)
  with False show ?thesis
    by (simp only: tokens_here_def ci_starts_tokens) simp
qed

lemma occurs_after_nonword:
  "\<not> is_word c \<Longrightarrow> occurs tokens_here (Some c) b = occurs tokens_here None b"
  by (cases b) (simp_all add: tokens_here_def)

lemma occurs_before_LF:
  "occurs tokens_here p (a @ LF # b) \<longleftrightarrow> occurs tokens_here p a \<or> occurs tokens_here None b"
proof (induction a arbitrary: p)
  case Nil
  have "tokens_here p (LF # b) = tokens_here p []"
    using tokens_here_before_LF [of p "[]" b] by simp
  then show ?case
    by (simp add: occurs_after_nonword [OF LF_not_word])
next
  case (Cons c cs)
  have "tokens_here p (c # cs @ LF # b) = tokens_here p (c # cs)"
    using tokens_here_before_LF [of p "c # cs" b] by simp
  with Cons.IH show ?case by auto
qed

lemma standalone_Nil: "\<not> standalone_tokens []"
  by (simp add: standalone_tokens_def tokens_here_def ci_starts_tokens)

lemma standalone_join:
  "standalone_tokens (join [LF] ls) \<longleftrightarrow> (\<exists>l\<in>set ls. standalone_tokens l)"
proof (induction "[LF]" ls rule: join.induct)
  case 1
  then show ?case by (simp add: standalone_Nil)
next
  case (2 x)
  then show ?case by simp
next
  case (3 x y ys)
  then show ?case
    by (simp add: standalone_tokens_def occurs_before_LF)
qed

lemma detect_active_iff:
  "detect_active T \<longleftrightarrow> (\<exists>l\<in>set (tail_lines T). standalone_tokens l)"
  by (simp only: detect_active_def search_tokens standalone_join)

subsection \<open>Lines of a text that ends in a line feed followed by more text\<close>

lemma strip_Nil: "strip [] = []"
  by (simp add: strip_def)

lemma LF_linebreak: "is_linebreak LF" and LF_not_CR: "LF \<noteq> CR"
  by (simp_all add: is_linebreak_def LF_def CR_def code_def)

lemma splitlines_Nil: "splitlines [] = []"
  by (subst splitlines.simps) simp

lemma splitlines_step:
  "s \<noteq> [] \<Longrightarrow>
     splitlines s = takeWhile (\<lambda>c. \<not> is_linebreak c) s
                    # splitlines (skip_break (dropWhile (\<lambda>c. \<not> is_linebreak c) s))"
  by (subst splitlines.simps) simp

lemma skip_break_LF: "skip_break (LF # b) = b"
  by (cases b) (simp_all add: LF_not_CR)

lemma splitlines_LF: "splitlines (LF # b) = [] # splitlines b"
  by (simp add: splitlines_step LF_linebreak skip_break_LF)

lemma kept_skip_break:
  assumes "rest \<noteq> []"
  shows "filter (\<lambda>l. strip l \<noteq> []) (splitlines (skip_break (rest @ LF # b)))
       = filter (\<lambda>l. strip l \<noteq> []) (splitlines (skip_break rest @ LF # b))"
proof (cases rest rule: skip_break.cases)
  case 1
  with assms show ?thesis by simp
next
  case (2 c)
  then show ?thesis by (simp add: splitlines_LF strip_Nil)
next
  case (3 c d cs)
  then show ?thesis by simp
qed

lemma kept_lines_append:
  "filter (\<lambda>l. strip l \<noteq> []) (splitlines (a @ LF # b))
     = filter (\<lambda>l. strip l \<noteq> []) (splitlines a) @ filter (\<lambda>l. strip l \<noteq> []) (splitlines b)"
proof (induction a rule: splitlines.induct)
  case (1 s)
  let ?nb = "\<lambda>c. \<not> is_linebreak c"
  show ?case
  proof (cases "s = []")
    case True
    then show ?thesis by (simp add: splitlines_LF splitlines_Nil strip_Nil)
  next
    case False
    note IH = 1 [OF False]
    show ?thesis
    proof (cases "dropWhile ?nb s = []")
      case True
      then have all: "\<forall>x\<in>set s. ?nb x" by (simp add: dropWhile_eq_Nil_conv)
      then have tw: "takeWhile ?nb s = s" by (simp add: takeWhile_eq_all_conv)
      have "LF # b = [] \<or> \<not> ?nb (hd (LF # b))" by (simp add: LF_linebreak)
      from run_split [OF all this]
      have tw2: "takeWhile ?nb (s @ LF # b) = s" and dw2: "dropWhile ?nb (s @ LF # b) = LF # b"
        by simp_all
      have "s @ LF # b \<noteq> []" by simp
      from splitlines_step [OF this]
      have long: "splitlines (s @ LF # b) = s # splitlines b"
        by (simp only: tw2 dw2 skip_break_LF)
      from splitlines_step [OF False]
      have short: "splitlines s = [s]"
        by (simp only: tw True skip_break.simps splitlines_Nil)
      show ?thesis by (simp only: long short) simp
    next
      case rest: False
      then obtain x where x: "x \<in> set s" "\<not> ?nb x"
        by (auto simp: dropWhile_eq_Nil_conv)
      have tw: "takeWhile ?nb (s @ LF # b) = takeWhile ?nb s"
        using x by (rule takeWhile_append1)
      have dw: "dropWhile ?nb (s @ LF # b) = dropWhile ?nb s @ LF # b"
        using x by (rule dropWhile_append1)
      have "s @ LF # b \<noteq> []" by simp
      from splitlines_step [OF this]
      have long: "splitlines (s @ LF # b)
          = takeWhile ?nb s # splitlines (skip_break (dropWhile ?nb s @ LF # b))"
        by (simp only: tw dw)
      have short: "splitlines s = takeWhile ?nb s # splitlines (skip_break (dropWhile ?nb s))"
        using False by (rule splitlines_step)
      have "filter (\<lambda>l. strip l \<noteq> []) (splitlines (skip_break (dropWhile ?nb s @ LF # b)))
          = filter (\<lambda>l. strip l \<noteq> []) (splitlines (skip_break (dropWhile ?nb s)))
            @ filter (\<lambda>l. strip l \<noteq> []) (splitlines b)"
        using kept_skip_break [OF rest, of b] IH by (simp only:)
      then show ?thesis
        by (simp only: long short filter.simps append_Cons split: if_splits) simp
    qed
  qed
qed

lemma nonempty_lines_append:
  "nonempty_lines (a @ LF # b) = nonempty_lines a @ nonempty_lines b"
  by (simp add: nonempty_lines_def kept_lines_append)

lemma tail_lines_below:
  "20 \<le> length (nonempty_lines b) \<Longrightarrow> tail_lines (a @ LF # b) = tail_lines b"
  by (simp add: tail_lines_def last_n_def nonempty_lines_append)

subsection \<open>Digits at the end of one line, the word at the start of the next\<close>

lemma join_Cons: "join sep (x # xs) = x @ (if xs = [] then [] else sep @ join sep xs)"
  by (cases xs) simp_all

lemma join_append:
  "rest \<noteq> [] \<Longrightarrow>
     join sep (pre @ rest) = (if pre = [] then [] else join sep pre @ sep) @ join sep rest"
proof (induction pre)
  case Nil
  then show ?case by simp
next
  case (Cons x pre)
  then show ?case by (simp add: join_Cons)
qed

lemma join_two_lines:
  "\<exists>A B. join [LF] (pre @ l1 # l2 # post) = A @ l1 @ LF # l2 @ B
         \<and> (A = [] \<or> last A = LF) \<and> (B = [] \<or> hd B = LF)"
proof -
  let ?A = "if pre = [] then [] else join [LF] pre @ [LF]"
  let ?B = "if post = [] then [] else [LF] @ join [LF] post"
  have "join [LF] (pre @ l1 # l2 # post) = ?A @ l1 @ LF # l2 @ ?B"
    by (simp add: join_append join_Cons)
  moreover have "?A = [] \<or> last ?A = LF" by simp
  moreover have "?B = [] \<or> hd ?B = LF" by simp
  ultimately show ?thesis by blast
qed

lemma ci_starts_tokens_append: "ci_starts ''tokens'' l \<Longrightarrow> ci_starts ''tokens'' (l @ B)"
  by (simp add: ci_starts_tokens)

lemma word_end_drop_append:
  assumes "6 \<le> length l" and "word_end (drop 6 l)" and "B = [] \<or> hd B = LF"
  shows "word_end (drop 6 (l @ B))"
proof (cases B)
  case Nil
  with assms show ?thesis by simp
next
  case (Cons c B')
  with assms(3) have "B = LF # B'" by simp
  with assms(1,2) show ?thesis by (simp add: word_end_before_LF)
qed

lemma digits_here_across:
  assumes "ds \<noteq> []" and "\<forall>c\<in>set ds. is_digit c" and "word_start q"
    and "tokens_here None l2" and "B = [] \<or> hd B = LF"
  shows "digits_tokens_here q (ds @ LF # l2 @ B)"
proof -
  from assms(4) have tok: "ci_starts ''tokens'' l2" "word_end (drop 6 l2)"
    by (simp_all add: tokens_here_def)
  then have len: "6 \<le> length l2" by (simp add: ci_starts_tokens)
  have "LF # l2 @ B = [] \<or> \<not> is_digit (hd (LF # l2 @ B))"
    by (simp add: space_not_digit LF_space)
  from run_split [OF assms(2) this]
  have dg: "takeWhile is_digit (ds @ LF # l2 @ B) = ds"
    "dropWhile is_digit (ds @ LF # l2 @ B) = LF # l2 @ B" by simp_all
  from ci_tokens_first [OF tok(1)] have "l2 @ B = [] \<or> \<not> is_space (hd (l2 @ B))" by auto
  moreover have "\<forall>c\<in>set [LF]. is_space c" by (simp add: LF_space)
  ultimately have "takeWhile is_space ([LF] @ l2 @ B) = [LF] \<and>
      dropWhile is_space ([LF] @ l2 @ B) = l2 @ B"
    by (intro run_split)
  then have sp: "takeWhile is_space (LF # l2 @ B) = [LF]"
    "dropWhile is_space (LF # l2 @ B) = l2 @ B" by simp_all
  show ?thesis
    unfolding digits_tokens_here_def dg sp
    using assms(1,3) ci_starts_tokens_append [OF tok(1)]
      word_end_drop_append [OF len tok(2) assms(5)]
    by simp
qed

lemma digits_across_lines:
  assumes "tail_lines T = pre @ (pre1 @ ds) # l2 # post"
    and "ds \<noteq> []" and "\<forall>c\<in>set ds. is_digit c" and "word_start (prev_char None pre1)"
    and "tokens_here None l2"
  shows "digits_tokens (join [LF] (tail_lines T))"
proof -
  from join_two_lines [of pre "pre1 @ ds" l2 post] obtain A B where
    j: "join [LF] (pre @ (pre1 @ ds) # l2 # post) = A @ (pre1 @ ds) @ LF # l2 @ B"
    and A: "A = [] \<or> last A = LF" and B: "B = [] \<or> hd B = LF"
    by blast
  have start: "word_start (prev_char None (A @ pre1))"
  proof (cases pre1)
    case Nil
    with A show ?thesis
      by (cases "A = []") (auto simp: prev_char_last LF_not_word)
  next
    case (Cons c cs)
    then have "prev_char None (A @ pre1) = prev_char None pre1"
      by (simp add: prev_char_append prev_char_last)
    with assms(4) show ?thesis by simp
  qed
  from digits_here_across [OF assms(2,3) start assms(5) B]
  have "digits_tokens_here (prev_char None (A @ pre1)) (ds @ LF # l2 @ B)" .
  moreover have "join [LF] (tail_lines T) = (A @ pre1) @ (ds @ LF # l2 @ B)"
    using j assms(1) by simp
  ultimately show ?thesis
    unfolding digits_tokens_def occurs_ex by blast
qed

lemma word_at_line_start_active:
  assumes "tail_lines T = pre @ l1 # l2 # post" and "tokens_here None l2"
  shows "detect_active T"
proof -
  from assms(2) have "standalone_tokens l2"
    by (cases l2) (simp_all add: standalone_tokens_def)
  moreover from assms(1) have "l2 \<in> set (tail_lines T)" by simp
  ultimately show ?thesis unfolding detect_active_iff by blast
qed

subsection \<open>Evaluated texts\<close>

lemma tail_all_done: "tail_lines ''all done'' = [''all done'']"
  by code_simp

lemma no_word_all_done: "\<not> standalone_tokens ''all done'' \<and> \<not> digits_tokens ''all done''"
  by code_simp

lemma tail_two: "tail_lines (''all done'' @ LF # ''used 12 tokens'') = [''all done'', ''used 12 tokens'']"
  by code_simp

lemma digits_used: "digits_tokens ''used 12 tokens''"
  by code_simp

lemma twenty_nonempty: "nonempty_lines twenty_lines = replicate 20 ''ok''"
  by code_simp

lemma no_word_ok: "\<not> standalone_tokens ''ok'' \<and> \<not> digits_tokens ''ok''"
  by code_simp

lemma split_example_active: "detect_active split_example"
  by code_simp

lemma split_example_lines: "splitlines split_example = [''used 12'', ''tokens left'']"
  by code_simp

lemma split_example_tail: "tail_lines split_example = [''used 12'', ''tokens left'']"
  by code_simp

lemma split_example_no_digits:
  "\<not> digits_tokens ''used 12'' \<and> \<not> digits_tokens ''tokens left''"
  by code_simp

lemma split_example_span:
  "search TOKEN_REGEX (join [LF] (tail_lines split_example)) = Some (5, 14)"
  by code_simp

lemma split_example_joined: "digits_tokens (join [LF] (tail_lines split_example))"
  by code_simp

lemma short_example_tail: "tail_lines short_example = [''total 7'', ''Tokens'']"
  by code_simp

lemma short_example_word: "tokens_here None ''Tokens''"
  by code_simp

lemma short_example_start: "word_start (prev_char None ''total '')"
  by code_simp

lemma digit_7: "is_digit CHR ''7''"
  by code_simp

subsection \<open>The tail decides\<close>

text \<open>
  Claim C2.  For every text: when none of its last 20 non-empty trimmed lines holds a
  case-insensitive whole-word occurrence of ``tokens'' (alone or after digits and
  whitespace), the classifier returns \<open>False\<close>; when one of them holds such an
  occurrence, it returns \<open>True\<close>; and what stands above a tail of 20 non-empty lines does
  not count: placing any text, with or without occurrences, before a line feed and a
  text of at least 20 non-empty lines leaves the result that of the lower text, so
  \<open>False\<close> when the tail has no occurrence.
\<close>

theorem detect_active_tail:
  "((\<forall>l\<in>set (tail_lines T). \<not> standalone_tokens l \<and> \<not> digits_tokens l)
       \<longrightarrow> \<not> detect_active T)
   \<and> ((\<exists>l\<in>set (tail_lines T). standalone_tokens l \<or> digits_tokens l) \<longrightarrow> detect_active T)
   \<and> (20 \<le> length (nonempty_lines later)
       \<longrightarrow> detect_active (earlier @ LF # later) = detect_active later)
   \<and> (20 \<le> length (nonempty_lines later)
        \<and> (\<forall>l\<in>set (tail_lines later). \<not> standalone_tokens l \<and> \<not> digits_tokens l)
       \<longrightarrow> \<not> detect_active (earlier @ LF # later))"
proof (intro conjI impI)
  assume "\<forall>l\<in>set (tail_lines T). \<not> standalone_tokens l \<and> \<not> digits_tokens l"
  then show "\<not> detect_active T" unfolding detect_active_iff by blast
next
  assume "\<exists>l\<in>set (tail_lines T). standalone_tokens l \<or> digits_tokens l"
  then show "detect_active T"
    unfolding detect_active_iff using digits_tokens_standalone by blast
next
  assume "20 \<le> length (nonempty_lines later)"
  then show "detect_active (earlier @ LF # later) = detect_active later"
    by (simp only: detect_active_def tail_lines_below)
next
  assume "20 \<le> length (nonempty_lines later)
        \<and> (\<forall>l\<in>set (tail_lines later). \<not> standalone_tokens l \<and> \<not> digits_tokens l)"
  then show "\<not> detect_active (earlier @ LF # later)"
    unfolding detect_active_iff by (simp add: tail_lines_below)
qed

theorem detect_active_tail_witness:
  "\<not> detect_active ''all done''
   \<and> detect_active (''all done'' @ LF # ''used 12 tokens'')
   \<and> \<not> detect_active (''used 12 tokens'' @ LF # twenty_lines)
   \<and> detect_active (''used 12 tokens'' @ LF # twenty_lines) = detect_active twenty_lines"
proof -
  have h1: "\<forall>l\<in>set (tail_lines ''all done''). \<not> standalone_tokens l \<and> \<not> digits_tokens l"
    using no_word_all_done by (simp add: tail_all_done)
  have h2: "\<exists>l\<in>set (tail_lines (''all done'' @ LF # ''used 12 tokens'')).
      standalone_tokens l \<or> digits_tokens l"
    using digits_used by (simp only: tail_two) simp
  have h3: "20 \<le> length (nonempty_lines twenty_lines)"
    by (simp add: twenty_nonempty)
  have h4: "\<forall>l\<in>set (tail_lines twenty_lines). \<not> standalone_tokens l \<and> \<not> digits_tokens l"
    using no_word_ok by (simp add: tail_lines_def last_n_def twenty_nonempty)
  show ?thesis
    using h1 h2 h3 h4
      detect_active_tail [of "''all done''" "[]" "[]"]
      detect_active_tail [of "''all done'' @ LF # ''used 12 tokens''" "[]" "[]"]
      detect_active_tail [of "[]" twenty_lines "''used 12 tokens''"]
    by blast
qed

subsection \<open>Across a line break\<close>

text \<open>
  Claim C9.  The text ``used 12'', line feed, ``tokens left'' is classified active
  although none of its lines holds digits, whitespace and the word: the trimmed lines
  are joined by line feeds, the match found runs from the digits through the line feed
  to the word (offsets 5 to 14), and the digits form occurs in the joined tail.  In
  general a tail line ending in a digit followed by a tail line that begins with the
  whole word makes the text active, and when the digits start at a word boundary the
  digits form occurs in the joined tail.
\<close>

theorem digits_then_tokens_across_lines:
  "detect_active split_example
   \<and> list_all (\<lambda>l. \<not> digits_tokens l) (splitlines split_example)
   \<and> search TOKEN_REGEX (join [LF] (tail_lines split_example)) = Some (5, 14)
   \<and> take (14 - 5) (drop 5 (join [LF] (tail_lines split_example))) = ''12'' @ [LF] @ ''tokens''
   \<and> digits_tokens (join [LF] (tail_lines split_example))
   \<and> (tail_lines T = pre @ l1 # l2 # post \<and> l1 \<noteq> [] \<and> is_digit (last l1) \<and> tokens_here None l2
       \<longrightarrow> detect_active T)
   \<and> (tail_lines T = pre @ (pre1 @ ds) # l2 # post \<and> ds \<noteq> [] \<and> (\<forall>c\<in>set ds. is_digit c)
        \<and> word_start (prev_char None pre1) \<and> tokens_here None l2
       \<longrightarrow> digits_tokens (join [LF] (tail_lines T)) \<and> detect_active T)"
proof (intro conjI impI)
  show "detect_active split_example" by (rule split_example_active)
  show "list_all (\<lambda>l. \<not> digits_tokens l) (splitlines split_example)"
    using split_example_no_digits by (simp add: split_example_lines)
  show "search TOKEN_REGEX (join [LF] (tail_lines split_example)) = Some (5, 14)"
    by (rule split_example_span)
  show "take (14 - 5) (drop 5 (join [LF] (tail_lines split_example))) = ''12'' @ [LF] @ ''tokens''"
    by (simp add: split_example_tail)
  show "digits_tokens (join [LF] (tail_lines split_example))" by (rule split_example_joined)
next
  assume "tail_lines T = pre @ l1 # l2 # post \<and> l1 \<noteq> [] \<and> is_digit (last l1)
      \<and> tokens_here None l2"
  then show "detect_active T" using word_at_line_start_active by blast
next
  assume a: "tail_lines T = pre @ (pre1 @ ds) # l2 # post \<and> ds \<noteq> [] \<and> (\<forall>c\<in>set ds. is_digit c)
        \<and> word_start (prev_char None pre1) \<and> tokens_here None l2"
  then show "digits_tokens (join [LF] (tail_lines T))"
    using digits_across_lines by blast
  from a show "detect_active T" using word_at_line_start_active by blast
qed

theorem digits_then_tokens_across_lines_witness:
  "detect_active short_example
   \<and> digits_tokens (join [LF] (tail_lines short_example))
   \<and> \<not> digits_tokens ''total 7'' \<and> \<not> digits_tokens ''Tokens''"
proof -
  have h: "tail_lines short_example = [] @ (''total '' @ ''7'') # ''Tokens'' # []
      \<and> ''7'' \<noteq> [] \<and> (\<forall>c\<in>set ''7''. is_digit c)
      \<and> word_start (prev_char None ''total '') \<and> tokens_here None ''Tokens''"
    using short_example_word short_example_start digit_7
    by (simp add: short_example_tail)
  have n: "\<not> digits_tokens ''total 7'' \<and> \<not> digits_tokens ''Tokens''"
    by code_simp
  from digits_then_tokens_across_lines
         [of short_example "[]" "''total 7''" "''Tokens''" "[]" "''total ''" "''7''"] h n
  show ?thesis by blast
qed

end
